theory Spec2Isabelle
  imports Main "HOL-Library.Multiset"
begin

section \<open>Strings and bytes\<close>

text \<open>
  Go strings are byte sequences; they are modelled as \<^typ>\<open>string\<close> (a list of 8-bit
  characters). The functions of package \<^verbatim>\<open>strings\<close> that \<^verbatim>\<open>main.go\<close> calls are
  written out below. \<^verbatim>\<open>strings.HasSuffix\<close> and \<^verbatim>\<open>strings.Contains\<close> compare bytes
  and are modelled exactly. \<^verbatim>\<open>strings.ToLower\<close> is modelled on ASCII letters only
  (bytes outside \<^verbatim>\<open>A-Z\<close> are kept); no statement below depends on how letters
  are folded.
\<close>

definition HasPrefix :: "string \<Rightarrow> string \<Rightarrow> bool" where
  "HasPrefix s pre \<longleftrightarrow> length pre \<le> length s \<and> take (length pre) s = pre"

definition HasSuffix :: "string \<Rightarrow> string \<Rightarrow> bool" where
  "HasSuffix s suf \<longleftrightarrow> length suf \<le> length s \<and> drop (length s - length suf) s = suf"

fun Contains :: "string \<Rightarrow> string \<Rightarrow> bool" where
  "Contains [] sub = (sub = [])"
| "Contains (c # cs) sub = (HasPrefix (c # cs) sub \<or> Contains cs sub)"

definition toLowerByte :: "char \<Rightarrow> char" where
  "toLowerByte c =
     (if (65::nat) \<le> of_char c \<and> of_char c \<le> (90::nat)
      then char_of (of_char c + (32::nat)) else c)"

definition ToLower :: "string \<Rightarrow> string" where
  "ToLower s = map toLowerByte s"

section \<open>Errors and the file system\<close>

text \<open>
  Go's \<^verbatim>\<open>error\<close> values. \<open>ErrStatus n\<close> is the error \<^verbatim>\<open>fmt.Errorf("status %d", n)\<close> of
  \<^verbatim>\<open>downloadZip\<close>; the others stand for the errors of the operating system, of the
  network and of package \<^verbatim>\<open>archive/zip\<close>.
\<close>

datatype error =
    ErrNotExist
  | ErrExist
  | ErrPermission
  | ErrIsDir
  | ErrFormat
  | ErrStatus int
  | ErrTransport
  | ErrUnexpectedEOF
  | ErrChecksum
  | ErrAlgorithm

text \<open>
  The file system is a map from paths to nodes: a directory, a regular file with its
  bytes, or a regular file this process may neither read nor write (\<open>Denied\<close>). The disk
  is reliable: a write to an open file and the removal of a file do not fail.
\<close>

datatype node = Dir | File string | Denied string

type_synonym filesys = "string \<rightharpoonup> node"

text \<open>\<^verbatim>\<open>os.Open\<close>: a directory can be opened, but every read from it fails.\<close>

definition Open :: "filesys \<Rightarrow> string \<Rightarrow> error + node" where
  "Open fs path =
     (case fs path of
        None \<Rightarrow> Inl ErrNotExist
      | Some (Denied b) \<Rightarrow> Inl ErrPermission
      | Some n \<Rightarrow> Inr n)"

text \<open>The bytes a reader of an open file delivers before it ends or fails.\<close>

fun fileBytes :: "node \<Rightarrow> string" where
  "fileBytes (File b) = b"
| "fileBytes Dir = []"
| "fileBytes (Denied b) = []"

section \<open>The line scanner of countMatches\<close>

text \<open>
  \<^verbatim>\<open>bufio.Scanner\<close> with the default split function \<^verbatim>\<open>ScanLines\<close> and
  \<^verbatim>\<open>scanner.Buffer(buf, 1024*1024)\<close>. \<open>Scan m cur bs\<close> is the list of tokens that the
  successive calls of \<^verbatim>\<open>scanner.Scan()\<close> deliver until one returns false, where \<open>cur\<close>
  is the part of the current line already in the buffer and \<open>bs\<close> the bytes not yet read.
  A token ends at a newline (a trailing carriage return is dropped); the last line needs
  no newline. The buffer grows up to \<open>m\<close> bytes: when it holds \<open>m\<close> bytes and no newline,
  \<^verbatim>\<open>Scan()\<close> records \<^verbatim>\<open>ErrTooLong\<close> and returns false. \<^verbatim>\<open>countMatches\<close> never reads
  \<^verbatim>\<open>scanner.Err()\<close>, so only the tokens are kept.
\<close>

definition maxTokenSize :: nat where
  "maxTokenSize = 1024 * 1024"

definition newline :: char where
  "newline = CHR 0x0A"

definition dropCR :: "string \<Rightarrow> string" where
  "dropCR s = (if s \<noteq> [] \<and> last s = CHR 0x0D then butlast s else s)"

fun Scan :: "nat \<Rightarrow> string \<Rightarrow> string \<Rightarrow> string list" where
  "Scan m cur [] = (if cur = [] then [] else [dropCR cur])"
| "Scan m cur (c # cs) =
     (if c = newline then dropCR cur # Scan m [] cs
      else if m \<le> length cur + 1 then []
      else Scan m (cur @ [c]) cs)"

section \<open>countMatches\<close>

fun countLoop :: "string \<Rightarrow> string list \<Rightarrow> int \<Rightarrow> int" where
  "countLoop domain [] cnt = cnt"
| "countLoop domain (t # ts) cnt =
     countLoop domain ts (if Contains (ToLower t) domain then cnt + 1 else cnt)"

definition countMatches :: "filesys \<Rightarrow> string \<Rightarrow> string \<Rightarrow> int" where
  "countMatches fs path domain =
     (case Open fs path of
        Inl err \<Rightarrow> 0
      | Inr f \<Rightarrow> countLoop domain (Scan maxTokenSize [] (fileBytes f)) 0)"

text \<open>
  The lines of a file as the specification speaks of them: the pieces between newlines,
  the last one only when it is not empty.
\<close>

fun splitLines :: "string \<Rightarrow> string \<Rightarrow> string list" where
  "splitLines cur [] = (if cur = [] then [] else [cur])"
| "splitLines cur (c # cs) =
     (if c = newline then cur # splitLines [] cs else splitLines (cur @ [c]) cs)"

definition matchingLine :: "string \<Rightarrow> string \<Rightarrow> bool" where
  "matchingLine domain line \<longleftrightarrow> Contains (ToLower (dropCR line)) domain"

definition hasLongLine :: "nat \<Rightarrow> string \<Rightarrow> bool" where
  "hasLongLine m bytes \<longleftrightarrow> list_ex (\<lambda>l. m < length l) (splitLines [] bytes)"

section \<open>The search pipeline\<close>

record queryResult =
  file' :: string
  matchCount :: int

text \<open>
  \<^verbatim>\<open>filepath.Walk(chaosDir, fn)\<close> calls \<^verbatim>\<open>fn\<close> once for every entry it visits, with the
  path, whether the entry is a directory, and the error met at that entry. The sequence of
  these calls is an input of the model; \<open>walkFn\<close> is the function literal of
  \<^verbatim>\<open>parallelQuery\<close>, which appends to \<^verbatim>\<open>files\<close> and swallows every error.
\<close>

record walkEntry =
  wpath :: string
  wIsDir :: bool
  werr :: "error option"

definition walkFn :: "string list \<Rightarrow> walkEntry \<Rightarrow> string list" where
  "walkFn files e =
     (if werr e = None \<and> \<not> wIsDir e \<and> HasSuffix (wpath e) ''subdomains.txt''
      then files @ [wpath e] else files)"

definition collectFiles :: "walkEntry list \<Rightarrow> string list" where
  "collectFiles walk = foldl walkFn [] walk"

text \<open>
  The body of a query worker's loop for one path taken from \<^verbatim>\<open>fileJobs\<close>: the results it
  sends on the channel \<^verbatim>\<open>results\<close> (one or none).
\<close>

definition queryWorker :: "filesys \<Rightarrow> string \<Rightarrow> string \<Rightarrow> queryResult list" where
  "queryWorker fs domain path =
     (let cnt = countMatches fs path domain
      in if 0 < cnt then [\<lparr>file' = path, matchCount = cnt\<rparr>] else [])"

definition reportedHits :: "filesys \<Rightarrow> string \<Rightarrow> string list \<Rightarrow> queryResult list" where
  "reportedHits fs domain files = concat (map (queryWorker fs domain) files)"

text \<open>
  The workers run concurrently, so the channel delivers the reported hits to the reducing
  loop in an order the program does not fix. The scheduler is a parameter \<open>sched\<close>: the
  function that turns the hits, listed in the order of \<^verbatim>\<open>files\<close>, into the order of
  their arrival. A scheduler only permutes (\<open>fairSched\<close>); what is proved for every such
  function holds for every order of arrival that can occur.
\<close>

definition fairSched :: "('a list \<Rightarrow> 'a list) \<Rightarrow> bool" where
  "fairSched sched \<longleftrightarrow> (\<forall>xs. mset (sched xs) = mset xs)"

text \<open>The reducing loop \<^verbatim>\<open>for result := range results\<close>, started with the zero value.\<close>

fun findBest :: "queryResult list \<Rightarrow> queryResult \<Rightarrow> queryResult" where
  "findBest [] best = best"
| "findBest (result # rs) best =
     findBest rs (if matchCount best < matchCount result then result else best)"

definition zeroResult :: queryResult where
  "zeroResult = \<lparr>file' = [], matchCount = 0\<rparr>"

text \<open>
  The hits in their order of arrival: with no worker (\<^verbatim>\<open>workers\<close> \<open>= 0\<close>) the channel is
  closed at once and nothing arrives.
\<close>

definition arrivals ::
  "(queryResult list \<Rightarrow> queryResult list) \<Rightarrow> filesys \<Rightarrow> string \<Rightarrow> string list \<Rightarrow> int
     \<Rightarrow> queryResult list" where
  "arrivals sched fs domain files workers =
     (if workers \<le> 0 then [] else sched (reportedHits fs domain files))"

text \<open>
  \<^verbatim>\<open>parallelQuery\<close>. The result is what was written to standard output, or \<open>None\<close> when
  the function panics: \<^verbatim>\<open>make(chan queryResult, workers)\<close> panics for a negative size.
\<close>

definition parallelQuery ::
  "(queryResult list \<Rightarrow> queryResult list) \<Rightarrow> filesys \<Rightarrow> walkEntry list \<Rightarrow> string \<Rightarrow> int
     \<Rightarrow> string option" where
  "parallelQuery sched fs walk domain workers =
     (let domain = ToLower domain;
          files = collectFiles walk
      in
      if length files = 0 then Some []
      else if workers < 0 then None
      else
        let best = findBest (arrivals sched fs domain files workers) zeroResult in
        if file' best = [] then Some []
        else (case Open fs (file' best) of
                Inl err \<Rightarrow> Some []
              | Inr f \<Rightarrow> Some (fileBytes f)))"

section \<open>Paths, directories and temporary files\<close>

text \<open>
  \<^verbatim>\<open>filepath.Join\<close> on two plain path elements; the cleaning of \<^verbatim>\<open>.\<close>, \<^verbatim>\<open>..\<close> and of
  repeated separators is not modelled.
\<close>

definition chaosDir :: string where
  "chaosDir = ''chaos''"

definition Join :: "string \<Rightarrow> string \<Rightarrow> string" where
  "Join a b = a @ ''/'' @ b"

definition DirOf :: "string \<Rightarrow> string" where
  "DirOf path = rev (drop 1 (dropWhile (\<lambda>c. c \<noteq> CHR ''/'') (rev path)))"

text \<open>The path itself and the directories above it, the outermost first.\<close>

fun ancestors :: "string \<Rightarrow> string \<Rightarrow> string list" where
  "ancestors cur [] = [cur]"
| "ancestors cur (c # cs) =
     (if c = CHR ''/'' \<and> cur \<noteq> [] then cur # ancestors (cur @ [c]) cs
      else ancestors (cur @ [c]) cs)"

text \<open>
  \<^verbatim>\<open>os.MkdirAll\<close> creates the missing directories from the outermost on and stops at
  the first element that exists and is no directory. Both callers drop its error, so only
  the file system is returned.
\<close>

fun mkdirs :: "filesys \<Rightarrow> string list \<Rightarrow> filesys" where
  "mkdirs fs [] = fs"
| "mkdirs fs (d # ds) =
     (case fs d of
        None \<Rightarrow> mkdirs (fs(d \<mapsto> Dir)) ds
      | Some Dir \<Rightarrow> mkdirs fs ds
      | Some n \<Rightarrow> fs)"

definition MkdirAll :: "filesys \<Rightarrow> string \<Rightarrow> filesys" where
  "MkdirAll fs path = mkdirs fs (ancestors [] path)"

text \<open>
  \<^verbatim>\<open>os.Create\<close> opens for writing and truncates. It fails on a directory, on a file
  that may not be written and when the directory of the path is missing (a path without
  separator lies in the working directory, which exists).
\<close>

definition Create :: "filesys \<Rightarrow> string \<Rightarrow> error + filesys" where
  "Create fs path =
     (case fs path of
        Some Dir \<Rightarrow> Inl ErrIsDir
      | Some (Denied b) \<Rightarrow> Inl ErrPermission
      | _ \<Rightarrow>
          if DirOf path = [] \<or> fs (DirOf path) = Some Dir then Inr (fs(path \<mapsto> File []))
          else Inl ErrNotExist)"

text \<open>\<^verbatim>\<open>os.Remove\<close> of a file; the callers drop its error.\<close>

definition Remove :: "filesys \<Rightarrow> string \<Rightarrow> filesys" where
  "Remove fs path = fs(path := None)"

text \<open>
  \<^verbatim>\<open>os.CreateTemp("", "chaos-*.zip")\<close> replaces the star by a random string and creates
  the file exclusively in the temporary directory. The random string \<open>rnd\<close> is an input of
  the model; the call fails when the name is taken.
\<close>

definition tmpName :: "string \<Rightarrow> string" where
  "tmpName rnd = ''/tmp/chaos-'' @ rnd @ ''.zip''"

definition isTemp :: "string \<Rightarrow> bool" where
  "isTemp path \<longleftrightarrow> HasPrefix path ''/tmp/chaos-'' \<and> HasSuffix path ''.zip''"

definition CreateTemp :: "filesys \<Rightarrow> string \<Rightarrow> error + (string \<times> filesys)" where
  "CreateTemp fs rnd =
     (case fs (tmpName rnd) of
        None \<Rightarrow> Inr (tmpName rnd, fs(tmpName rnd \<mapsto> File []))
      | Some n \<Rightarrow> Inl ErrExist)"

section \<open>Streams, the network and archives\<close>

text \<open>
  An \<^verbatim>\<open>io.Reader\<close> read to its end: the bytes it delivers, and the error that ends it
  (\<open>None\<close> for a regular end). \<^verbatim>\<open>io.Copy\<close> to a file of the reliable disk writes all
  delivered bytes and returns that error.
\<close>

record stream =
  sdata :: string
  serr :: "error option"

text \<open>What \<^verbatim>\<open>http.Get\<close> returns for a URL: an error, or a status code and a body.\<close>

datatype response = Failed error | Response int stream

type_synonym network = "string \<Rightarrow> response"

text \<open>
  A member of an archive, as \<^verbatim>\<open>archive/zip\<close> presents it: \<^verbatim>\<open>f.Name\<close>,
  \<^verbatim>\<open>f.FileInfo().IsDir()\<close> and the result of \<^verbatim>\<open>f.Open()\<close>, an error or the
  decompressed stream. The decoder of the archive format is a parameter \<open>zr\<close> of the model:
  it maps the bytes of a file to the error or the member list of \<^verbatim>\<open>zip.OpenReader\<close>.
\<close>

record zipFile =
  zName :: string
  zIsDir :: bool
  zOpen :: "error + stream"

type_synonym zipReader = "string \<Rightarrow> error + zipFile list"

definition OpenReader :: "zipReader \<Rightarrow> filesys \<Rightarrow> string \<Rightarrow> error + zipFile list" where
  "OpenReader zr fs src =
     (case Open fs src of
        Inl e \<Rightarrow> Inl e
      | Inr (File b) \<Rightarrow> zr b
      | Inr n \<Rightarrow> Inl ErrIsDir)"

section \<open>The download and extraction pipeline\<close>

record Program =
  Name :: string
  URL :: string
  Count :: int

record downloadResult =
  program :: Program
  zipPath :: string
  err :: "error option"

record unzipJob =
  program :: Program
  zipPath :: string

subsection \<open>downloadZip\<close>

definition downloadZip ::
  "network \<Rightarrow> string \<Rightarrow> filesys \<Rightarrow> Program \<Rightarrow> filesys \<times> string \<times> error option" where
  "downloadZip net rnd fs p =
     (case net (URL p) of
        Failed e \<Rightarrow> (fs, [], Some e)
      | Response status body \<Rightarrow>
          if status \<noteq> 200 then (fs, [], Some (ErrStatus status))
          else
            (case CreateTemp fs rnd of
               Inl e \<Rightarrow> (fs, [], Some e)
             | Inr (tmpPath, fs1) \<Rightarrow>
                 let fs2 = fs1(tmpPath \<mapsto> File (sdata body)) in
                 (case serr body of
                    Some e \<Rightarrow> (Remove fs2 tmpPath, [], Some e)
                  | None \<Rightarrow> (fs2, tmpPath, None))))"

subsection \<open>unzip\<close>

text \<open>
  The loop over \<^verbatim>\<open>r.File\<close>; \<open>out\<close> is what has been written to \<^verbatim>\<open>writer\<close> so far. The
  deferred \<^verbatim>\<open>writer.Flush()\<close> and \<^verbatim>\<open>outFile.Close()\<close> run on every return, so the file
  ends up with all of \<open>out\<close>, also when the loop returns an error.
\<close>

fun copyMembers :: "zipFile list \<Rightarrow> string \<Rightarrow> string \<times> error option" where
  "copyMembers [] out = (out, None)"
| "copyMembers (f # fs) out =
     (if zIsDir f \<or> \<not> HasSuffix (zName f) ''.txt'' then copyMembers fs out
      else
        (case zOpen f of
           Inl e \<Rightarrow> (out, Some e)
         | Inr rc \<Rightarrow>
             (case serr rc of
                Some e \<Rightarrow> (out @ sdata rc, Some e)
              | None \<Rightarrow> copyMembers fs (out @ sdata rc))))"

definition unzip :: "zipReader \<Rightarrow> filesys \<Rightarrow> string \<Rightarrow> string \<Rightarrow> filesys \<times> error option" where
  "unzip zr fs src dest =
     (case OpenReader zr fs src of
        Inl e \<Rightarrow> (fs, Some e)
      | Inr r \<Rightarrow>
          let outPath = Join dest ''subdomains.txt'' in
          (case Create fs outPath of
             Inl e \<Rightarrow> (fs, Some e)
           | Inr fs1 \<Rightarrow>
               let (out, e) = copyMembers r [] in (fs1(outPath \<mapsto> File out), e)))"




subsection \<open>Channels\<close>

text \<open>
  A buffered channel: its capacity and the elements sent and not yet received, the
  oldest first. \<open>send\<close> and \<open>recv\<close> return \<open>None\<close> where the Go operation would block.
\<close>

record 'a chan =
  cap :: nat
  buf :: "'a list"

definition makeChan :: "nat \<Rightarrow> 'a chan" where
  "makeChan n = \<lparr>cap = n, buf = []\<rparr>"

definition send :: "'a chan \<Rightarrow> 'a \<Rightarrow> 'a chan option" where
  "send ch x = (if length (buf ch) < cap ch then Some (ch\<lparr>buf := buf ch @ [x]\<rparr>) else None)"

definition recv :: "'a chan \<Rightarrow> ('a \<times> 'a chan) option" where
  "recv ch = (case buf ch of [] \<Rightarrow> None | x # xs \<Rightarrow> Some (x, ch\<lparr>buf := xs\<rparr>))"

subsection \<open>The selection of the programs to download\<close>

text \<open>\<^verbatim>\<open>strings.EqualFold\<close>, on ASCII letters as \<open>ToLower\<close>.\<close>

definition EqualFold :: "string \<Rightarrow> string \<Rightarrow> bool" where
  "EqualFold s t \<longleftrightarrow> ToLower s = ToLower t"

fun findTarget :: "Program list \<Rightarrow> string \<Rightarrow> Program list" where
  "findTarget [] target = []"
| "findTarget (p # ps) target =
     (if EqualFold (Name p) target then [p] else findTarget ps target)"

text \<open>\<open>None\<close>: the program is not found and the process exits with status 1.\<close>

definition selectTargets :: "Program list \<Rightarrow> string \<Rightarrow> Program list option" where
  "selectTargets programs target =
     (if target = ''all'' then Some programs
      else
        let toDownload = findTarget programs target in
        if length toDownload = 0 then None else Some toDownload)"

subsection \<open>The state of a run of parallelDownload\<close>

text \<open>What the pipeline prints, on standard output or standard error, in order.\<close>

datatype message =
    Downloading nat int
  | DownloadFailed string error
  | UnzipFailed string error
  | Unzipped string
  | CompleteMsg int int

text \<open>
  Where the main goroutine stands: in the loop over \<^verbatim>\<open>downloadResults\<close> waiting for a
  result, in that loop at the send \<^verbatim>\<open>unzipJobs <- ...\<close>, after \<^verbatim>\<open>close(unzipJobs)\<close> in
  \<^verbatim>\<open>unzipWg.Wait()\<close>, or past the last print.
\<close>

datatype driver = Collecting | Sending unzipJob | Waiting | Finished

text \<open>
  \<open>toFeed\<close> is what the feeding goroutine has still to look at. The fields \<open>enqueued\<close>,
  \<open>fetched\<close>, \<open>tallied\<close> and \<open>extracted\<close> are history variables: they record every job
  sent on \<^verbatim>\<open>downloadJobs\<close>, every result sent on \<^verbatim>\<open>downloadResults\<close>, every result
  the main goroutine has received from it, and every extraction with its outcome; no
  step reads them.
\<close>

record pipeline =
  fsys :: filesys
  toFeed :: "Program list"
  downloadJobs :: "Program chan"
  downloadResults :: "downloadResult chan"
  unzipJobs :: "unzipJob chan"
  driver :: driver
  successCount :: int
  failCount :: int
  printed :: "message list"
  enqueued :: "Program list"
  fetched :: "downloadResult list"
  tallied :: "downloadResult list"
  extracted :: "(unzipJob \<times> error option) list"

definition fetchable :: "Program \<Rightarrow> bool" where
  "fetchable p \<longleftrightarrow> URL p \<noteq> [] \<and> 0 < Count p"

text \<open>
  The body of an unzip worker's loop for one job: the new file system and the error of
  \<^verbatim>\<open>unzip\<close>, and the line the worker prints for it.
\<close>

definition unzipWorker :: "zipReader \<Rightarrow> filesys \<Rightarrow> unzipJob \<Rightarrow> filesys \<times> error option" where
  "unzipWorker zr fs job =
     (let destDir = Join chaosDir (Name (unzipJob.program job));
          fs1 = MkdirAll fs destDir;
          (fs2, e) = unzip zr fs1 (unzipJob.zipPath job) destDir
      in (Remove fs2 (unzipJob.zipPath job), e))"

definition unzipMessage :: "unzipJob \<Rightarrow> error option \<Rightarrow> message" where
  "unzipMessage job e =
     (case e of
        Some er \<Rightarrow> UnzipFailed (Name (unzipJob.program job)) er
      | None \<Rightarrow> Unzipped (Name (unzipJob.program job)))"

text \<open>
  \<^verbatim>\<open>parallelDownload\<close> up to the start of the goroutines. \<open>None\<close>: the function panics,
  as \<^verbatim>\<open>make(chan unzipJob, workers*2)\<close> does for a negative size. The loop before it
  has started \<^verbatim>\<open>workers\<close> goroutines by then, so \<^verbatim>\<open>workers\<close> is far from the range
  where the product would wrap around, and it is modelled as an unbounded integer.
\<close>

definition initPipeline :: "filesys \<Rightarrow> Program list \<Rightarrow> int \<Rightarrow> pipeline option" where
  "initPipeline fs toDownload workers =
     (if workers * 2 < 0 then None
      else Some \<lparr>
        fsys = MkdirAll fs chaosDir,
        toFeed = toDownload,
        downloadJobs = makeChan (length toDownload),
        downloadResults = makeChan (length toDownload),
        unzipJobs = makeChan (nat (workers * 2)),
        driver = Collecting,
        successCount = 0,
        failCount = 0,
        printed = [Downloading (length toDownload) workers],
        enqueued = [],
        fetched = [],
        tallied = [],
        extracted = []\<rparr>)"

subsection \<open>The steps of the goroutines\<close>

text \<open>
  An action names the goroutine that moves next: the feeder looks at one program; a
  download worker takes a job, runs \<^verbatim>\<open>downloadZip\<close> (with the random string of its
  temporary file) and sends the result; the main goroutine receives a result and counts
  it (\<open>Tally\<close>), sends the job it holds (\<open>Handoff\<close>), finds \<^verbatim>\<open>downloadResults\<close> closed and
  empty (\<open>CloseResults\<close>) or returns from \<^verbatim>\<open>unzipWg.Wait()\<close> and prints the totals
  (\<open>Complete\<close>); an unzip worker takes a job, extracts it and removes the archive. A step
  is \<open>None\<close> when that goroutine cannot move: it is blocked on its channel or does not
  exist. A download worker writes its own temporary file only, and an unzip worker its
  own archive and the directory of its program, so one turn of a worker's loop is taken
  as one step (the extractions of two programs of the same name, which share a
  directory, are thereby taken one after the other).

  \<^verbatim>\<open>downloadResults\<close> is closed once all download workers have returned, that is once
  \<^verbatim>\<open>downloadJobs\<close> is closed and empty, or at once when there are no workers;
  \<^verbatim>\<open>unzipWg.Wait()\<close> returns once \<^verbatim>\<open>unzipJobs\<close> is closed and empty.
\<close>

datatype action = Feed | Fetch string | Tally | Handoff | CloseResults | Extract | Complete

fun step :: "network \<Rightarrow> zipReader \<Rightarrow> int \<Rightarrow> action \<Rightarrow> pipeline \<Rightarrow> pipeline option" where
  "step net zr workers Feed s =
     (case toFeed s of
        [] \<Rightarrow> None
      | p # ps \<Rightarrow>
          if URL p \<noteq> [] \<and> 0 < Count p then
            (case send (downloadJobs s) p of
               None \<Rightarrow> None
             | Some ch \<Rightarrow> Some (s\<lparr>toFeed := ps, downloadJobs := ch, enqueued := enqueued s @ [p]\<rparr>))
          else Some (s\<lparr>toFeed := ps\<rparr>))"
| "step net zr workers (Fetch rnd) s =
     (if workers \<le> 0 then None
      else
        (case recv (downloadJobs s) of
           None \<Rightarrow> None
         | Some (p, jobs) \<Rightarrow>
             let (fs, path, e) = downloadZip net rnd (fsys s) p;
                 r = \<lparr>downloadResult.program = p, zipPath = path, err = e\<rparr>
             in
             (case send (downloadResults s) r of
                None \<Rightarrow> None
              | Some ch \<Rightarrow>
                  Some (s\<lparr>fsys := fs, downloadJobs := jobs, downloadResults := ch,
                          fetched := fetched s @ [r]\<rparr>))))"
| "step net zr workers Tally s =
     (if driver s \<noteq> Collecting then None
      else
        (case recv (downloadResults s) of
           None \<Rightarrow> None
         | Some (result, ch) \<Rightarrow>
             (case err result of
                Some e \<Rightarrow>
                  Some (s\<lparr>downloadResults := ch,
                          printed := printed s @ [DownloadFailed (Name (downloadResult.program result)) e],
                          failCount := failCount s + 1,
                          tallied := tallied s @ [result]\<rparr>)
              | None \<Rightarrow>
                  Some (s\<lparr>downloadResults := ch,
                          successCount := successCount s + 1,
                          driver := Sending \<lparr>program = downloadResult.program result,
                                             zipPath = downloadResult.zipPath result\<rparr>,
                          tallied := tallied s @ [result]\<rparr>))))"
| "step net zr workers Handoff s =
     (case driver s of
        Sending job \<Rightarrow>
          (case send (unzipJobs s) job of
             None \<Rightarrow> None
           | Some ch \<Rightarrow> Some (s\<lparr>unzipJobs := ch, driver := Collecting\<rparr>))
      | _ \<Rightarrow> None)"
| "step net zr workers CloseResults s =
     (if driver s = Collecting \<and> buf (downloadResults s) = [] \<and>
         (workers \<le> 0 \<or> (toFeed s = [] \<and> buf (downloadJobs s) = []))
      then Some (s\<lparr>driver := Waiting\<rparr>) else None)"
| "step net zr workers Extract s =
     (if workers \<le> 0 then None
      else
        (case recv (unzipJobs s) of
           None \<Rightarrow> None
         | Some (job, ch) \<Rightarrow>
             let (fs, e) = unzipWorker zr (fsys s) job in
             Some (s\<lparr>fsys := fs, unzipJobs := ch,
                     printed := printed s @ [unzipMessage job e],
                     extracted := extracted s @ [(job, e)]\<rparr>)))"
| "step net zr workers Complete s =
     (if driver s = Waiting \<and> buf (unzipJobs s) = []
      then Some (s\<lparr>driver := Finished,
                   printed := printed s @ [CompleteMsg (successCount s) (failCount s)]\<rparr>)
      else None)"

text \<open>A run under a schedule: the actions in the order in which they happen.\<close>

fun exec :: "network \<Rightarrow> zipReader \<Rightarrow> int \<Rightarrow> action list \<Rightarrow> pipeline \<Rightarrow> pipeline option" where
  "exec net zr workers [] s = Some s"
| "exec net zr workers (a # as) s =
     (case step net zr workers a s of
        None \<Rightarrow> None
      | Some s' \<Rightarrow> exec net zr workers as s')"

text \<open>
  \<^verbatim>\<open>parallelDownload\<close> under a schedule: the state that the run has reached when the
  actions of the schedule have happened. \<open>None\<close>: the process has exited because the
  program was not found, the function has panicked, or the schedule names a goroutine
  that cannot move and so is no schedule of this run.
\<close>

definition parallelDownload ::
  "network \<Rightarrow> zipReader \<Rightarrow> action list \<Rightarrow> filesys \<Rightarrow> Program list \<Rightarrow> string \<Rightarrow> int
     \<Rightarrow> pipeline option" where
  "parallelDownload net zr sched fs programs target workers =
     (case selectTargets programs target of
        None \<Rightarrow> None
      | Some toDownload \<Rightarrow>
          (case initPipeline fs toDownload workers of
             None \<Rightarrow> None
           | Some s0 \<Rightarrow> exec net zr workers sched s0))"

text \<open>The temporary archives still referred to by a result or a job in the pipeline.\<close>

definition okPaths :: "downloadResult list \<Rightarrow> string list" where
  "okPaths rs = map downloadResult.zipPath (filter (\<lambda>r. err r = None) rs)"

fun heldPaths :: "driver \<Rightarrow> string list" where
  "heldPaths (Sending job) = [unzipJob.zipPath job]"
| "heldPaths d = []"

definition inFlight :: "pipeline \<Rightarrow> string list" where
  "inFlight s =
     okPaths (buf (downloadResults s)) @ heldPaths (driver s) @
     map unzipJob.zipPath (buf (unzipJobs s))"

subsection \<open>Invariants of a run\<close>

definition okResults :: "downloadResult list \<Rightarrow> downloadResult list" where
  "okResults rs = filter (\<lambda>r. err r = None) rs"

definition failedResults :: "downloadResult list \<Rightarrow> downloadResult list" where
  "failedResults rs = filter (\<lambda>r. err r \<noteq> None) rs"

definition toJob :: "downloadResult \<Rightarrow> unzipJob" where
  "toJob r = \<lparr>program = downloadResult.program r, zipPath = downloadResult.zipPath r\<rparr>"

fun heldJobs :: "driver \<Rightarrow> unzipJob list" where
  "heldJobs (Sending job) = [job]"
| "heldJobs d = []"

fun isUnzipMessage :: "message \<Rightarrow> bool" where
  "isUnzipMessage (UnzipFailed n e) = True"
| "isUnzipMessage (Unzipped n) = True"
| "isUnzipMessage m = False"

text \<open>The program names that a printed line mentions.\<close>

fun mentions :: "message \<Rightarrow> string list" where
  "mentions (DownloadFailed n e) = [n]"
| "mentions (UnzipFailed n e) = [n]"
| "mentions (Unzipped n) = [n]"
| "mentions m = []"

text \<open>
  The bookkeeping of the channels: every program is looked at once by the feeder, the
  jobs are fetched in the order in which they were sent, the results are received in the
  order in which they were sent and counted as they are received, and the jobs of the
  results without error go to extraction in that order.
\<close>

definition flowInv :: "Program list \<Rightarrow> int \<Rightarrow> pipeline \<Rightarrow> bool" where
  "flowInv toDownload workers s \<longleftrightarrow>
     enqueued s @ filter fetchable (toFeed s) = filter fetchable toDownload \<and>
     enqueued s = map downloadResult.program (fetched s) @ buf (downloadJobs s) \<and>
     fetched s = tallied s @ buf (downloadResults s) \<and>
     successCount s = int (length (okResults (tallied s))) \<and>
     failCount s = int (length (failedResults (tallied s))) \<and>
     map toJob (okResults (tallied s)) =
       map fst (extracted s) @ buf (unzipJobs s) @ heldJobs (driver s) \<and>
     filter isUnzipMessage (printed s) = map (\<lambda>(job, e). unzipMessage job e) (extracted s)"

text \<open>Every job, result and printed line is about a program that the feeder has sent.\<close>

definition namesInv :: "pipeline \<Rightarrow> bool" where
  "namesInv s \<longleftrightarrow>
     set (concat (map mentions (printed s))) \<subseteq> Name ` set (enqueued s) \<and>
     set (buf (downloadJobs s)) \<subseteq> set (enqueued s) \<and>
     downloadResult.program ` set (buf (downloadResults s)) \<subseteq> set (enqueued s) \<and>
     unzipJob.program ` (set (buf (unzipJobs s)) \<union> set (heldJobs (driver s))) \<subseteq> set (enqueued s)"

text \<open>The capacities of the channels and what the closing of a channel implies.\<close>

definition chanInv :: "Program list \<Rightarrow> int \<Rightarrow> pipeline \<Rightarrow> bool" where
  "chanInv toDownload workers s \<longleftrightarrow>
     cap (downloadJobs s) = length toDownload \<and>
     cap (downloadResults s) = length toDownload \<and>
     cap (unzipJobs s) = nat (workers * 2) \<and>
     length (buf (unzipJobs s)) \<le> cap (unzipJobs s) \<and>
     ((driver s = Waiting \<or> driver s = Finished) \<longrightarrow>
        buf (downloadResults s) = [] \<and>
        (0 < workers \<longrightarrow> toFeed s = [] \<and> buf (downloadJobs s) = [])) \<and>
     (driver s = Finished \<longrightarrow>
        buf (unzipJobs s) = [] \<and> printed s \<noteq> [] \<and>
        last (printed s) = CompleteMsg (successCount s) (failCount s)) \<and>
     (workers \<le> 0 \<longrightarrow> fetched s = [])"

text \<open>
  What is left to do in a state, as a number that every step makes smaller: the run
  cannot go on for ever.
\<close>

fun driverRank :: "driver \<Rightarrow> nat" where
  "driverRank Finished = 0"
| "driverRank Waiting = 1"
| "driverRank Collecting = 2"
| "driverRank (Sending job) = 4"

definition workLeft :: "pipeline \<Rightarrow> nat" where
  "workLeft s =
     5 * length (toFeed s) + 4 * length (buf (downloadJobs s)) +
     3 * length (buf (downloadResults s)) + length (buf (unzipJobs s)) +
     driverRank (driver s)"

text \<open>
  The temporary archives: those in flight are distinct files that this run created, and
  every other temporary path is as it was in the file system \<open>fs0\<close> of the start.
\<close>

definition tempInv :: "filesys \<Rightarrow> pipeline \<Rightarrow> bool" where
  "tempInv fs0 s \<longleftrightarrow>
     distinct (inFlight s) \<and>
     (\<forall>p. isTemp p \<longrightarrow>
        (if p \<in> set (inFlight s) then fs0 p = None \<and> fsys s p \<noteq> None else fsys s p = fs0 p)) \<and>
     (\<forall>p\<in>set (inFlight s). isTemp p)"

section \<open>Example inputs\<close>

text \<open>
  Concrete inputs at which the theorems below are instantiated: a corpus of three
  consolidated files with 2, 5 and 5 lines matching \<^verbatim>\<open>x.io\<close>, the calls of the walk
  over it, and a file whose second line is longer than the scan buffer.
\<close>

definition unlines :: "string list \<Rightarrow> string" where
  "unlines ls = concat (map (\<lambda>l. l @ [newline]) ls)"

definition pathA :: string where
  "pathA = ''chaos/a/subdomains.txt''"

definition pathB :: string where
  "pathB = ''chaos/b/subdomains.txt''"

definition pathC :: string where
  "pathC = ''chaos/c/subdomains.txt''"

definition bytesA :: string where
  "bytesA = unlines [''www.x.io'', ''Mail.X.io'', ''y.org'']"

definition bytesB :: string where
  "bytesB = unlines [''a.x.io'', ''b.x.io'', ''c.x.io'', ''d.x.io'', ''e.x.io'']"

definition bytesC :: string where
  "bytesC = unlines [''f.x.io'', ''g.x.io'', ''h.x.io'', ''i.x.io'', ''j.x.io'', ''k.net'']"

definition corpus :: filesys where
  "corpus = [''chaos'' \<mapsto> Dir, ''chaos/a'' \<mapsto> Dir, pathA \<mapsto> File bytesA,
             ''chaos/b'' \<mapsto> Dir, pathB \<mapsto> File bytesB,
             ''chaos/c'' \<mapsto> Dir, pathC \<mapsto> File bytesC]"

definition corpusWalk :: "walkEntry list" where
  "corpusWalk =
     [\<lparr>wpath = ''chaos'', wIsDir = True, werr = None\<rparr>,
      \<lparr>wpath = ''chaos/a'', wIsDir = True, werr = None\<rparr>,
      \<lparr>wpath = pathA, wIsDir = False, werr = None\<rparr>,
      \<lparr>wpath = ''chaos/b'', wIsDir = True, werr = None\<rparr>,
      \<lparr>wpath = pathB, wIsDir = False, werr = None\<rparr>,
      \<lparr>wpath = ''chaos/c'', wIsDir = True, werr = None\<rparr>,
      \<lparr>wpath = pathC, wIsDir = False, werr = None\<rparr>]"

definition hitA :: queryResult where
  "hitA = \<lparr>file' = pathA, matchCount = 2\<rparr>"

definition hitB :: queryResult where
  "hitB = \<lparr>file' = pathB, matchCount = 5\<rparr>"

definition hitC :: queryResult where
  "hitC = \<lparr>file' = pathC, matchCount = 5\<rparr>"

definition longFile :: string where
  "longFile = ''a.com'' @ newline # replicate (2 * maxTokenSize) (CHR ''x'')"

text \<open>
  One program of the index with its archive (a directory entry, two text members and a
  member that is no text file and cannot be decompressed), a decoder that knows this
  archive only, and a network that serves it, together with a body that breaks off, a
  missing archive and a body that is no archive.
\<close>

definition acme :: Program where
  "acme = \<lparr>Name = ''acme'', URL = ''http://x/acme.zip'', Count = 10\<rparr>"

definition acmeArchive :: "zipFile list" where
  "acmeArchive =
     [\<lparr>zName = ''acme/'', zIsDir = True, zOpen = Inr \<lparr>sdata = [], serr = None\<rparr>\<rparr>,
      \<lparr>zName = ''acme/a.txt'', zIsDir = False,
        zOpen = Inr \<lparr>sdata = ''sub1.acme.com'' @ [newline], serr = None\<rparr>\<rparr>,
      \<lparr>zName = ''acme/logo.png'', zIsDir = False, zOpen = Inl ErrAlgorithm\<rparr>,
      \<lparr>zName = ''acme/b.txt'', zIsDir = False,
        zOpen = Inr \<lparr>sdata = ''sub2.acme.com'' @ [newline], serr = None\<rparr>\<rparr>]"

definition exZip :: zipReader where
  "exZip bytes = (if bytes = ''PK-acme'' then Inr acmeArchive else Inl ErrFormat)"

definition exNet :: network where
  "exNet url =
     (if url = ''http://x/acme.zip'' then Response 200 \<lparr>sdata = ''PK-acme'', serr = None\<rparr>
      else if url = ''http://x/cut.zip''
        then Response 200 \<lparr>sdata = ''PK-ac'', serr = Some ErrUnexpectedEOF\<rparr>
      else if url = ''http://x/html.zip''
        then Response 200 \<lparr>sdata = ''<html>'', serr = None\<rparr>
      else if url = ''http://x/gone.zip'' then Response 404 \<lparr>sdata = [], serr = None\<rparr>
      else Failed ErrTransport)"

definition acmeOut :: string where
  "acmeOut = ''chaos/acme/subdomains.txt''"

definition acmeText :: string where
  "acmeText = ''sub1.acme.com'' @ [newline] @ ''sub2.acme.com'' @ [newline]"

text \<open>
  A file system after an earlier download of the program, with a fetched archive waiting
  in the temporary directory: a good one, and one that is no archive.
\<close>

definition staleFs :: "string \<Rightarrow> filesys" where
  "staleFs archive =
     [''chaos'' \<mapsto> Dir, ''chaos/acme'' \<mapsto> Dir, acmeOut \<mapsto> File ''old.acme.com'',
      tmpName ''7'' \<mapsto> File archive]"

text \<open>The same before any download of the program.\<close>

definition freshFs :: "string \<Rightarrow> filesys" where
  "freshFs archive =
     [''chaos'' \<mapsto> Dir, ''chaos/acme'' \<mapsto> Dir, tmpName ''7'' \<mapsto> File archive]"

text \<open>
  A run of the pipeline with one worker over five programs: the archive of the first is
  fetched and extracted, the second has no URL, the body of the third breaks off, the
  fourth is fetched but is no archive, and the last has no items.
\<close>

definition cutP :: Program where
  "cutP = \<lparr>Name = ''cut'', URL = ''http://x/cut.zip'', Count = 3\<rparr>"

definition htmlP :: Program where
  "htmlP = \<lparr>Name = ''html'', URL = ''http://x/html.zip'', Count = 7\<rparr>"

definition noUrlP :: Program where
  "noUrlP = \<lparr>Name = ''nourl'', URL = [], Count = 5\<rparr>"

definition emptyP :: Program where
  "emptyP = \<lparr>Name = ''empty'', URL = ''http://x/empty.zip'', Count = 0\<rparr>"

definition exPrograms :: "Program list" where
  "exPrograms = [acme, noUrlP, cutP, htmlP, emptyP]"

definition exSchedule :: "action list" where
  "exSchedule =
     [Feed, Feed, Feed, Fetch ''1'', Feed, Tally, Fetch ''2'', Feed, Fetch ''3'', Handoff,
      Tally, Extract, Tally, Handoff, CloseResults, Extract, Complete]"

definition exFinal :: pipeline where
  "exFinal = the (parallelDownload exNet exZip exSchedule Map.empty exPrograms ''all'' 1)"

text \<open>The state of this run before its last two actions: the fourth archive waits.\<close>

definition exWaiting :: pipeline where
  "exWaiting =
     the (parallelDownload exNet exZip (butlast (butlast exSchedule)) Map.empty exPrograms
       ''all'' 1)"

text \<open>
  A second download of the fourth program alone, over the consolidated file of an earlier
  run; and a run over three programs in which one worker has fetched three archives before
  the main goroutine has received any result.
\<close>

definition rerunFs :: filesys where
  "rerunFs = [''chaos'' \<mapsto> Dir, ''chaos/html'' \<mapsto> Dir,
              ''chaos/html/subdomains.txt'' \<mapsto> File ''old.html.com'']"

definition rerunSchedule :: "action list" where
  "rerunSchedule = [Feed, Fetch ''1'', Tally, Handoff, CloseResults, Extract, Complete]"

definition rerunFinal :: pipeline where
  "rerunFinal = the (parallelDownload exNet exZip rerunSchedule rerunFs exPrograms ''Html'' 1)"

definition burstSchedule :: "action list" where
  "burstSchedule = [Feed, Feed, Feed, Fetch ''1'', Fetch ''2'', Fetch ''3'']"

definition burstFinal :: pipeline where
  "burstFinal =
     the (parallelDownload exNet exZip burstSchedule Map.empty [acme, acme, acme] ''all'' 1)"

text \<open>
  The same run continued until the main goroutine holds the third job while the first two
  wait in \<^verbatim>\<open>unzipJobs\<close>; and the same run after the first step of the feeder.
\<close>

definition fullSchedule :: "action list" where
  "fullSchedule = burstSchedule @ [Tally, Handoff, Tally, Handoff, Tally]"



section \<open>The scanner and countMatches\<close>

lemma takeWhile_splitLines_long:
  "m \<le> length cur \<Longrightarrow> takeWhile (\<lambda>l. length l < m) (splitLines cur bs) = []"
  by (induction bs arbitrary: cur) auto

lemma Scan_splitLines:
  "length cur < m \<Longrightarrow>
   Scan m cur bs = map dropCR (takeWhile (\<lambda>l. length l < m) (splitLines cur bs))"
proof (induction bs arbitrary: cur)
  case Nil
  then show ?case by simp
next
  case (Cons c cs)
  show ?case
  proof (cases "c = newline")
    case True
    with Cons show ?thesis by simp
  next
    case False
    show ?thesis
    proof (cases "m \<le> length cur + 1")
      case True
      then have "takeWhile (\<lambda>l. length l < m) (splitLines (cur @ [c]) cs) = []"
        by (intro takeWhile_splitLines_long) simp
      with True False show ?thesis by simp
    next
      case small: False
      then have "length (cur @ [c]) < m" by simp
      from Cons.IH[OF this] False small show ?thesis by simp
    qed
  qed
qed

lemma countLoop_filter:
  "countLoop d ts n = n + int (length (filter (\<lambda>t. Contains (ToLower t) d) ts))"
  by (induction ts arbitrary: n) auto

lemma splitLines_no_newline:
  "newline \<notin> set xs \<Longrightarrow> splitLines cur xs = (if cur @ xs = [] then [] else [cur @ xs])"
  by (induction xs arbitrary: cur) auto

lemma splitLines_line:
  "newline \<notin> set l \<Longrightarrow> splitLines cur (l @ newline # rest) = (cur @ l) # splitLines [] rest"
  by (induction l arbitrary: cur) auto

lemma countMatches_File:
  "fs path = Some (File bytes) \<Longrightarrow>
   countMatches fs path domain =
     int (length (filter (matchingLine domain)
       (takeWhile (\<lambda>l. length l < maxTokenSize) (splitLines [] bytes))))"
  by (simp add: countMatches_def Open_def countLoop_filter Scan_splitLines maxTokenSize_def
      filter_map o_def matchingLine_def[abs_def])

lemma countMatches_other:
  "p \<noteq> path \<Longrightarrow> countMatches (fs(path := n)) p domain = countMatches fs p domain"
  by (simp add: countMatches_def Open_def)

lemma countMatches_unopened:
  "Open fs path = Inl e \<Longrightarrow> countMatches fs path domain = 0"
  by (simp add: countMatches_def)

lemma countMatches_empty_file:
  "countMatches (fs(path \<mapsto> File [])) path domain = 0"
  by (simp add: countMatches_def Open_def)

lemma countMatches_pos_File:
  "0 < countMatches fs p d \<Longrightarrow> \<exists>bytes. fs p = Some (File bytes)"
  by (auto simp: countMatches_def Open_def split: option.splits node.splits)

lemma parallelQuery_returns:
  "0 \<le> workers \<Longrightarrow> parallelQuery sched fs walk domain workers \<noteq> None"
  by (simp add: parallelQuery_def Let_def split: sum.splits)

lemma splitLines_longFile:
  "splitLines [] longFile = [''a.com'', replicate (2 * maxTokenSize) (CHR ''x'')]"
  by (simp add: longFile_def splitLines_line splitLines_no_newline newline_def maxTokenSize_def)

lemma matching_a_com: "matchingLine ''a.com'' ''a.com''"
  by (simp add: matchingLine_def dropCR_def ToLower_def toLowerByte_def HasPrefix_def)

lemma count_longFile:
  "length (filter (matchingLine ''a.com'')
     (takeWhile (\<lambda>l. length l < maxTokenSize) (splitLines [] longFile))) = 1"
  by (simp add: splitLines_longFile matching_a_com maxTokenSize_def)

text \<open>
  Claim C6, as the code has it. The scan of a file stops without any signal at the first
  line of \<open>maxTokenSize\<close> bytes or more, and \<^verbatim>\<open>countMatches\<close> returns the number of
  matching lines before that line: the matches counted so far are kept, not reset to
  zero. The stop concerns that file only: the count of every other path does not depend
  on the file, and \<^verbatim>\<open>parallelQuery\<close> still returns.
\<close>

theorem countMatches_stops_at_long_line:
  assumes "fs path = Some (File bytes)"
  shows "countMatches fs path domain =
           int (length (filter (matchingLine domain)
             (takeWhile (\<lambda>l. length l < maxTokenSize) (splitLines [] bytes)))) \<and>
         (\<forall>p. p \<noteq> path \<longrightarrow> countMatches fs p domain = countMatches (fs(path := None)) p domain) \<and>
         (0 \<le> workers \<longrightarrow> parallelQuery sched fs walk domain workers \<noteq> None)"
  using assms by (simp add: countMatches_File countMatches_other parallelQuery_returns)

theorem countMatches_stops_at_long_line_witness:
  "[pathA \<mapsto> File longFile] pathA = Some (File longFile) \<and>
   hasLongLine maxTokenSize longFile \<and>
   countMatches [pathA \<mapsto> File longFile] pathA ''a.com'' = 1 \<and>
   countMatches [pathA \<mapsto> File longFile] pathB ''a.com'' = countMatches Map.empty pathB ''a.com'' \<and>
   parallelQuery id [pathA \<mapsto> File longFile] [] ''a.com'' 4 \<noteq> None"
proof -
  have present: "[pathA \<mapsto> File longFile] pathA = Some (File longFile)"
    by simp
  note inst = countMatches_stops_at_long_line
    [of "[pathA \<mapsto> File longFile]" pathA longFile "''a.com''" 4 id "[]", OF present]
  have long: "hasLongLine maxTokenSize longFile"
    by (simp add: hasLongLine_def splitLines_longFile maxTokenSize_def)
  from inst have "countMatches [pathA \<mapsto> File longFile] pathA ''a.com'' = int 1"
    by (simp only: count_longFile)
  then have one: "countMatches [pathA \<mapsto> File longFile] pathA ''a.com'' = 1"
    by simp
  have "pathB \<noteq> pathA"
    by (simp add: pathA_def pathB_def)
  with inst have other:
    "countMatches [pathA \<mapsto> File longFile] pathB ''a.com'' = countMatches Map.empty pathB ''a.com''"
    by simp
  from inst have ret: "parallelQuery id [pathA \<mapsto> File longFile] [] ''a.com'' 4 \<noteq> None"
    by simp
  from present long one other ret show ?thesis
    by blast
qed

text \<open>
  Claim C6 as it is stated fails: a file whose first line matches and whose second line
  is twice as long as the scan buffer has the match count 1, not 0.
\<close>

theorem countMatches_long_line_counterexample:
  "hasLongLine maxTokenSize longFile \<and>
   countMatches [pathA \<mapsto> File longFile] pathA ''a.com'' \<noteq> 0"
proof
  show "hasLongLine maxTokenSize longFile"
    by (simp add: hasLongLine_def splitLines_longFile maxTokenSize_def)
  have "countMatches [pathA \<mapsto> File longFile] pathA ''a.com'' =
    int (length (filter (matchingLine ''a.com'')
       (takeWhile (\<lambda>l. length l < maxTokenSize) (splitLines [] longFile))))"
    by (rule countMatches_File) simp
  then show "countMatches [pathA \<mapsto> File longFile] pathA ''a.com'' \<noteq> 0"
    by (simp add: count_longFile)
qed

lemma reportedHits_cong:
  "(\<And>p. p \<in> set files \<Longrightarrow> countMatches fs p d = countMatches fs2 p d) \<Longrightarrow>
   reportedHits fs d files = reportedHits fs2 d files"
  unfolding reportedHits_def
  by (induction files) (simp_all add: queryWorker_def)

lemma reportedHits_unopened:
  assumes "Open fs path = Inl e"
  shows "reportedHits fs domain files = reportedHits (fs(path \<mapsto> File [])) domain files"
proof (rule reportedHits_cong)
  fix p
  show "countMatches fs p domain = countMatches (fs(path \<mapsto> File [])) p domain"
  proof (cases "p = path")
    case True
    with assms show ?thesis
      by (simp add: countMatches_unopened countMatches_empty_file)
  next
    case False
    then show ?thesis
      by (simp add: countMatches_other)
  qed
qed

lemma parallelQuery_unopened:
  assumes "Open fs path = Inl e"
  shows "parallelQuery sched fs walk q workers =
         parallelQuery sched (fs(path \<mapsto> File [])) walk q workers"
proof -
  let ?fs = "fs(path \<mapsto> File [])"
  have same: "arrivals sched fs d files workers = arrivals sched ?fs d files workers" for d files
    using reportedHits_unopened [OF assms] by (simp add: arrivals_def)
  have "(case Open fs p of Inl e \<Rightarrow> Some [] | Inr f \<Rightarrow> Some (fileBytes f)) =
        (case Open ?fs p of Inl e \<Rightarrow> Some [] | Inr f \<Rightarrow> Some (fileBytes f))" for p
    using assms by (cases "p = path") (simp_all add: Open_def)
  with same show ?thesis
    by (simp add: parallelQuery_def Let_def)
qed

text \<open>
  Claim C10. When \<^verbatim>\<open>os.Open\<close> fails on a path, \<^verbatim>\<open>countMatches\<close> returns 0 (its result
  is an integer, there is no error to return) and the worker reports no hit for the path.
  What the workers report for any list of files, and what \<^verbatim>\<open>parallelQuery\<close> writes under
  any scheduler, is what it would be if the path held an empty file.
\<close>

theorem countMatches_unopenable:
  assumes "Open fs path = Inl e"
  shows "countMatches fs path domain = 0 \<and>
         queryWorker fs domain path = [] \<and>
         reportedHits fs domain files = reportedHits (fs(path \<mapsto> File [])) domain files \<and>
         parallelQuery sched fs walk q workers =
           parallelQuery sched (fs(path \<mapsto> File [])) walk q workers"
proof -
  have z: "countMatches fs path domain = 0"
    using assms by (rule countMatches_unopened)
  have w: "queryWorker fs domain path = []"
    by (simp add: queryWorker_def z)
  from z w reportedHits_unopened [OF assms] parallelQuery_unopened [OF assms] show ?thesis
    by simp
qed

theorem countMatches_unopenable_witness:
  "Open (corpus(pathA \<mapsto> Denied bytesA)) pathA = Inl ErrPermission \<and>
   countMatches (corpus(pathA \<mapsto> Denied bytesA)) pathA ''x.io'' = 0 \<and>
   queryWorker (corpus(pathA \<mapsto> Denied bytesA)) ''x.io'' pathA = [] \<and>
   reportedHits (corpus(pathA \<mapsto> Denied bytesA)) ''x.io'' [pathA, pathB] =
     reportedHits (corpus(pathA \<mapsto> File [])) ''x.io'' [pathA, pathB] \<and>
   parallelQuery id (corpus(pathA \<mapsto> Denied bytesA)) corpusWalk ''x.io'' 2 =
     parallelQuery id (corpus(pathA \<mapsto> File [])) corpusWalk ''x.io'' 2"
proof -
  have denied: "Open (corpus(pathA \<mapsto> Denied bytesA)) pathA = Inl ErrPermission"
    by (simp add: Open_def)
  from countMatches_unopenable [OF denied, of "''x.io''" "[pathA, pathB]" id corpusWalk "''x.io''" 2]
    denied
  show ?thesis
    by simp
qed

section \<open>The reduction of parallelQuery\<close>

lemma fairSched_Nil: "fairSched sched \<Longrightarrow> sched [] = []"
  by (metis fairSched_def mset_zero_iff)

lemma fairSched_set: "fairSched sched \<Longrightarrow> set (sched xs) = set xs"
  by (metis fairSched_def set_mset_mset)

lemma fairSched_id: "fairSched id"
  by (simp add: fairSched_def)

lemma fairSched_rev: "fairSched rev"
  by (simp add: fairSched_def)

lemma reportedHits_filter:
  "reportedHits fs d files =
     map (\<lambda>p. \<lparr>file' = p, matchCount = countMatches fs p d\<rparr>)
       (filter (\<lambda>p. 0 < countMatches fs p d) files)"
  unfolding reportedHits_def by (induction files) (simp_all add: queryWorker_def)

lemma reportedHits_no_match:
  "(\<And>p. p \<in> set files \<Longrightarrow> countMatches fs p d = 0) \<Longrightarrow> reportedHits fs d files = []"
  by (simp add: reportedHits_filter)

lemma arrivals_no_match:
  "fairSched sched \<Longrightarrow> (\<And>p. p \<in> set files \<Longrightarrow> countMatches fs p d = 0) \<Longrightarrow>
   arrivals sched fs d files workers = []"
  by (simp add: arrivals_def reportedHits_no_match fairSched_Nil)

lemma collect_corpusWalk: "collectFiles corpusWalk = [pathA, pathB, pathC]"
  by (simp add: collectFiles_def corpusWalk_def walkFn_def HasSuffix_def
      pathA_def pathB_def pathC_def)

lemma corpus_paths: "corpus pathA = Some (File bytesA)" "corpus pathB = Some (File bytesB)"
  "corpus pathC = Some (File bytesC)"
  by (simp_all add: corpus_def pathA_def pathB_def pathC_def)

lemma ToLower_x_io: "ToLower ''X.io'' = ''x.io''" "ToLower ''x.io'' = ''x.io''"
  by (simp_all add: ToLower_def toLowerByte_def char_of_eq_iff)

lemma count_A: "countMatches corpus pathA ''x.io'' = 2"
  by (simp add: countMatches_def Open_def corpus_paths bytesA_def unlines_def
      maxTokenSize_def newline_def dropCR_def ToLower_def toLowerByte_def HasPrefix_def
      char_of_eq_iff)

lemma count_B: "countMatches corpus pathB ''x.io'' = 5"
  by (simp add: countMatches_def Open_def corpus_paths bytesB_def unlines_def
      maxTokenSize_def newline_def dropCR_def ToLower_def toLowerByte_def HasPrefix_def)

lemma count_C: "countMatches corpus pathC ''x.io'' = 5"
  by (simp add: countMatches_def Open_def corpus_paths bytesC_def unlines_def
      maxTokenSize_def newline_def dropCR_def ToLower_def toLowerByte_def HasPrefix_def)

lemma count_none:
  "countMatches corpus pathA ''zzz'' = 0" "countMatches corpus pathB ''zzz'' = 0"
  "countMatches corpus pathC ''zzz'' = 0"
  by (simp_all add: countMatches_def Open_def corpus_paths bytesA_def bytesB_def bytesC_def
      unlines_def maxTokenSize_def newline_def dropCR_def ToLower_def toLowerByte_def
      HasPrefix_def char_of_eq_iff)

text \<open>
  Claim C9. When the walk yields no file, \<^verbatim>\<open>parallelQuery\<close> returns with nothing
  written. When it yields files of which none has a matching line, nothing is written
  either, under every scheduler: the function returns with empty output, except that for
  a negative number of workers it panics at \<^verbatim>\<open>make(chan queryResult, workers)\<close>, again
  with nothing written to standard output.
\<close>

theorem parallelQuery_no_output:
  "(collectFiles walk = [] \<longrightarrow> parallelQuery sched fs walk domain workers = Some []) \<and>
   (fairSched sched \<and> (\<forall>p\<in>set (collectFiles walk). countMatches fs p (ToLower domain) = 0) \<longrightarrow>
      parallelQuery sched fs walk domain workers =
        (if collectFiles walk \<noteq> [] \<and> workers < 0 then None else Some []))"
proof (intro conjI impI)
  assume "collectFiles walk = []"
  then show "parallelQuery sched fs walk domain workers = Some []"
    by (simp add: parallelQuery_def)
next
  assume a: "fairSched sched \<and> (\<forall>p\<in>set (collectFiles walk). countMatches fs p (ToLower domain) = 0)"
  then have "arrivals sched fs (ToLower domain) (collectFiles walk) workers = []"
    by (intro arrivals_no_match) auto
  then show "parallelQuery sched fs walk domain workers =
        (if collectFiles walk \<noteq> [] \<and> workers < 0 then None else Some [])"
    by (simp add: parallelQuery_def Let_def zeroResult_def)
qed

theorem parallelQuery_no_output_witness:
  "collectFiles [\<lparr>wpath = ''chaos'', wIsDir = True, werr = None\<rparr>] = [] \<and>
   parallelQuery rev Map.empty [\<lparr>wpath = ''chaos'', wIsDir = True, werr = None\<rparr>] ''x.io'' 4 = Some [] \<and>
   fairSched (rev :: queryResult list \<Rightarrow> queryResult list) \<and>
   collectFiles corpusWalk = [pathA, pathB, pathC] \<and>
   countMatches corpus pathA (ToLower ''ZZZ'') = 0 \<and>
   countMatches corpus pathB (ToLower ''ZZZ'') = 0 \<and>
   countMatches corpus pathC (ToLower ''ZZZ'') = 0 \<and>
   parallelQuery rev corpus corpusWalk ''ZZZ'' 4 = Some []"
proof -
  have lower: "ToLower ''ZZZ'' = ''zzz''"
    by (simp add: ToLower_def toLowerByte_def char_of_eq_iff)
  have nofile: "collectFiles [\<lparr>wpath = ''chaos'', wIsDir = True, werr = None\<rparr>] = []"
    by (simp add: collectFiles_def walkFn_def)
  from nofile parallelQuery_no_output
    [of "[\<lparr>wpath = ''chaos'', wIsDir = True, werr = None\<rparr>]" rev Map.empty "''x.io''" 4]
  have first: "parallelQuery rev Map.empty [\<lparr>wpath = ''chaos'', wIsDir = True, werr = None\<rparr>] ''x.io'' 4 = Some []"
    by blast
  have hyp: "fairSched (rev :: queryResult list \<Rightarrow> queryResult list) \<and>
      (\<forall>p\<in>set (collectFiles corpusWalk). countMatches corpus p (ToLower ''ZZZ'') = 0)"
    by (simp add: fairSched_rev collect_corpusWalk lower count_none)
  from parallelQuery_no_output [of corpusWalk rev corpus "''ZZZ''" 4, THEN conjunct2, THEN mp, OF hyp]
  have second: "parallelQuery rev corpus corpusWalk ''ZZZ'' 4 = Some []"
    by simp
  note fair = fairSched_rev [where ?'a = queryResult]
  note files = collect_corpusWalk
  have zero: "countMatches corpus pathA (ToLower ''ZZZ'') = 0"
    "countMatches corpus pathB (ToLower ''ZZZ'') = 0"
    "countMatches corpus pathC (ToLower ''ZZZ'') = 0"
    by (simp_all add: lower count_none)
  show ?thesis
    by (intro conjI; fact)
qed

lemma findBest_cases:
  "(findBest rs b = b \<and> (\<forall>r\<in>set rs. matchCount r \<le> matchCount b)) \<or>
   (\<exists>pre post. rs = pre @ findBest rs b # post \<and> matchCount b < matchCount (findBest rs b) \<and>
      (\<forall>r\<in>set pre. matchCount r < matchCount (findBest rs b)) \<and>
      (\<forall>r\<in>set post. matchCount r \<le> matchCount (findBest rs b)))"
proof (induction rs arbitrary: b)
  case Nil
  then show ?case by simp
next
  case (Cons r rs)
  let ?b' = "if matchCount b < matchCount r then r else b"
  let ?w = "findBest (r # rs) b"
  have w: "?w = findBest rs ?b'" by simp
  from Cons.IH[of ?b'] show ?case
  proof (elim disjE conjE exE)
    assume same: "findBest rs ?b' = ?b'" and le: "\<forall>x\<in>set rs. matchCount x \<le> matchCount ?b'"
    show ?thesis
    proof (cases "matchCount b < matchCount r")
      case True
      with same le have "r # rs = [] @ ?w # rs \<and> matchCount b < matchCount ?w \<and>
        (\<forall>x\<in>set []. matchCount x < matchCount ?w) \<and> (\<forall>x\<in>set rs. matchCount x \<le> matchCount ?w)"
        by simp
      then show ?thesis by blast
    next
      case False
      with same le show ?thesis by auto
    qed
  next
    fix pre post
    assume split: "rs = pre @ findBest rs ?b' # post"
      and gt: "matchCount ?b' < matchCount (findBest rs ?b')"
      and pre: "\<forall>x\<in>set pre. matchCount x < matchCount (findBest rs ?b')"
      and post: "\<forall>x\<in>set post. matchCount x \<le> matchCount (findBest rs ?b')"
    from split have "r # rs = (r # pre) @ ?w # post" by simp
    moreover from gt have "matchCount b < matchCount ?w" "matchCount r < matchCount ?w"
      by (simp_all split: if_splits)
    moreover from pre \<open>matchCount r < matchCount ?w\<close>
    have "\<forall>x\<in>set (r # pre). matchCount x < matchCount ?w" by simp
    moreover from post have "\<forall>x\<in>set post. matchCount x \<le> matchCount ?w" by simp
    ultimately show ?thesis by blast
  qed
qed

lemma findBest_first_max:
  assumes "rs \<noteq> []" and "\<forall>r\<in>set rs. 0 < matchCount r"
  shows "\<exists>pre post. rs = pre @ findBest rs zeroResult # post \<and>
      (\<forall>r\<in>set pre. matchCount r < matchCount (findBest rs zeroResult)) \<and>
      (\<forall>r\<in>set post. matchCount r \<le> matchCount (findBest rs zeroResult))"
proof -
  from assms obtain r where "r \<in> set rs" "0 < matchCount r"
    by (cases rs) auto
  then have "\<not> (\<forall>r\<in>set rs. matchCount r \<le> matchCount zeroResult)"
    by (simp add: zeroResult_def) (meson not_le)
  with findBest_cases[of rs zeroResult] show ?thesis by blast
qed

lemma set_reportedHits:
  "set (reportedHits fs d files) =
     {\<lparr>file' = p, matchCount = countMatches fs p d\<rparr> | p. p \<in> set files \<and> 0 < countMatches fs p d}"
  by (auto simp: reportedHits_filter)

lemma collectFiles_suffix_aux:
  "\<forall>p\<in>set acc. HasSuffix p ''subdomains.txt'' \<Longrightarrow>
   \<forall>p\<in>set (foldl walkFn acc walk). HasSuffix p ''subdomains.txt''"
proof (induction walk arbitrary: acc)
  case Nil
  then show ?case by simp
next
  case (Cons e walk)
  have "\<forall>p\<in>set (walkFn acc e). HasSuffix p ''subdomains.txt''"
    using Cons.prems by (simp add: walkFn_def)
  from Cons.IH[OF this] show ?case by simp
qed

lemma collectFiles_suffix:
  "p \<in> set (collectFiles walk) \<Longrightarrow> HasSuffix p ''subdomains.txt''"
  using collectFiles_suffix_aux[of "[]" walk] by (simp add: collectFiles_def)

lemma collectFiles_nonempty_path:
  "p \<in> set (collectFiles walk) \<Longrightarrow> p \<noteq> []"
  by (auto dest: collectFiles_suffix simp: HasSuffix_def)

lemma parallelQuery_best:
  assumes "collectFiles walk \<noteq> []" and "0 \<le> workers"
  shows "parallelQuery sched fs walk q workers =
     (let best = findBest (arrivals sched fs (ToLower q) (collectFiles walk) workers) zeroResult in
      if file' best = [] then Some []
      else (case Open fs (file' best) of Inl e \<Rightarrow> Some [] | Inr f \<Rightarrow> Some (fileBytes f)))"
  using assms by (simp add: parallelQuery_def Let_def)

lemma two_five_five:
  assumes fair: "fairSched sched" and w: "0 < workers"
    and files: "set (collectFiles walk) = {a, b, c}"
    and ca: "countMatches fs a (ToLower q) = 2"
    and cb: "countMatches fs b (ToLower q) = 5"
    and cc: "countMatches fs c (ToLower q) = 5"
  shows "\<exists>bytes. parallelQuery sched fs walk q workers = Some bytes \<and>
           (fs b = Some (File bytes) \<or> fs c = Some (File bytes)) \<and> fs a \<noteq> Some (File bytes)"
proof -
  let ?d = "ToLower q"
  let ?rs = "arrivals sched fs ?d (collectFiles walk) workers"
  let ?best = "findBest ?rs zeroResult"
  let ?hb = "\<lparr>file' = b, matchCount = 5\<rparr>"
  let ?hc = "\<lparr>file' = c, matchCount = 5\<rparr>"
  let ?ha = "\<lparr>file' = a, matchCount = 2\<rparr>"
  have "set ?rs = set (reportedHits fs ?d (collectFiles walk))"
    using fair w by (simp add: arrivals_def fairSched_set)
  also have "\<dots> = {?ha, ?hb, ?hc}"
    unfolding set_reportedHits files using ca cb cc by auto
  finally have rs: "set ?rs = {?ha, ?hb, ?hc}" .
  then have ne: "?rs \<noteq> []" by auto
  have pos: "\<forall>r\<in>set ?rs. 0 < matchCount r" unfolding rs by simp
  from findBest_first_max[OF ne pos] obtain pre post where
    split: "?rs = pre @ ?best # post"
    and pre: "\<forall>r\<in>set pre. matchCount r < matchCount ?best"
    and post: "\<forall>r\<in>set post. matchCount r \<le> matchCount ?best"
    by blast
  from split have mem: "?best \<in> set ?rs"
    by (metis in_set_conv_decomp)
  have "?hb \<in> set ?rs" unfolding rs by simp
  then have "?hb \<in> set pre \<or> ?hb = ?best \<or> ?hb \<in> set post"
    by (subst (asm) split) auto
  then have "5 \<le> matchCount ?best"
  proof (elim disjE)
    assume "?hb \<in> set pre"
    with pre have "matchCount ?hb < matchCount ?best" by blast
    then show ?thesis by simp
  next
    assume "?hb = ?best"
    then have "matchCount ?best = matchCount ?hb" by simp
    then show ?thesis by simp
  next
    assume "?hb \<in> set post"
    with post have "matchCount ?hb \<le> matchCount ?best" by blast
    then show ?thesis by simp
  qed
  with mem have best: "?best = ?hb \<or> ?best = ?hc" unfolding rs by auto
  from files have fne: "collectFiles walk \<noteq> []" by auto
  have bne: "b \<noteq> []" "c \<noteq> []"
    using files collectFiles_nonempty_path[of _ walk] by auto
  from cb obtain bb where bb: "fs b = Some (File bb)"
    using countMatches_pos_File[of fs b ?d] by auto
  from cc obtain bc where bc: "fs c = Some (File bc)"
    using countMatches_pos_File[of fs c ?d] by auto
  have diff: "fs a \<noteq> fs b" "fs a \<noteq> fs c"
    using ca cb cc by (auto simp: countMatches_def Open_def)
  have pq: "parallelQuery sched fs walk q workers =
     (if file' ?best = [] then Some []
      else (case Open fs (file' ?best) of Inl e \<Rightarrow> Some [] | Inr f \<Rightarrow> Some (fileBytes f)))"
    using parallelQuery_best[OF fne, of workers sched fs q] w by (simp add: Let_def)
  from best show ?thesis
  proof
    assume "?best = ?hb"
    then have "file' ?best = b" by simp
    with pq bne bb have "parallelQuery sched fs walk q workers = Some bb"
      by (simp add: Open_def)
    with bb diff show ?thesis by auto
  next
    assume "?best = ?hc"
    then have "file' ?best = c" by simp
    with pq bne bc have "parallelQuery sched fs walk q workers = Some bc"
      by (simp add: Open_def)
    with bc diff show ?thesis by auto
  qed
qed

text \<open>
  Claim C2. The hits that the workers report are the files with a positive match count,
  each with its count: a file with no match is not reported. For every non-empty sequence
  of hits with positive counts, in whatever order they arrive, the reducing loop ends
  with a hit of that sequence whose count is strictly greater than that of every hit
  before it and at least that of every hit after it: a hit of greatest count, and among
  these the one that arrived first. With three files of 2, 5 and 5 matches, some workers
  and any scheduler, \<^verbatim>\<open>parallelQuery\<close> writes the whole of one of the two count-5
  files, and these bytes are not the content of the count-2 file.
\<close>

theorem findBest_first_maximum:
  "reportedHits fs domain files =
     map (\<lambda>p. \<lparr>file' = p, matchCount = countMatches fs p domain\<rparr>)
       (filter (\<lambda>p. 0 < countMatches fs p domain) files) \<and>
   (rs \<noteq> [] \<and> (\<forall>r\<in>set rs. 0 < matchCount r) \<longrightarrow>
      (\<exists>pre post. rs = pre @ findBest rs zeroResult # post \<and>
         (\<forall>r\<in>set pre. matchCount r < matchCount (findBest rs zeroResult)) \<and>
         (\<forall>r\<in>set post. matchCount r \<le> matchCount (findBest rs zeroResult)))) \<and>
   (fairSched sched \<and> 0 < workers \<and> set (collectFiles walk) = {a, b, c} \<and>
    countMatches fs a (ToLower q) = 2 \<and> countMatches fs b (ToLower q) = 5 \<and>
    countMatches fs c (ToLower q) = 5 \<longrightarrow>
      (\<exists>bytes. parallelQuery sched fs walk q workers = Some bytes \<and>
         (fs b = Some (File bytes) \<or> fs c = Some (File bytes)) \<and> fs a \<noteq> Some (File bytes)))"
  using findBest_first_max [of rs] two_five_five [of sched workers walk a b c fs q]
  by (simp add: reportedHits_filter)

theorem findBest_first_maximum_witness:
  "[hitA, hitB, hitC] \<noteq> [] \<and>
   0 < matchCount hitA \<and> 0 < matchCount hitB \<and> 0 < matchCount hitC \<and>
   (\<exists>pre post. [hitA, hitB, hitC] = pre @ findBest [hitA, hitB, hitC] zeroResult # post \<and>
      (\<forall>r\<in>set pre. matchCount r < matchCount (findBest [hitA, hitB, hitC] zeroResult)) \<and>
      (\<forall>r\<in>set post. matchCount r \<le> matchCount (findBest [hitA, hitB, hitC] zeroResult))) \<and>
   findBest [hitA, hitB, hitC] zeroResult = hitB \<and>
   findBest [hitC, hitB, hitA] zeroResult = hitC \<and>
   reportedHits corpus ''x.io'' [pathA, pathB, pathC] = [hitA, hitB, hitC] \<and>
   fairSched (rev :: queryResult list \<Rightarrow> queryResult list) \<and> (0::int) < 2 \<and>
   set (collectFiles corpusWalk) = {pathA, pathB, pathC} \<and>
   countMatches corpus pathA (ToLower ''X.io'') = 2 \<and>
   countMatches corpus pathB (ToLower ''X.io'') = 5 \<and>
   countMatches corpus pathC (ToLower ''X.io'') = 5 \<and>
   (\<exists>bytes. parallelQuery rev corpus corpusWalk ''X.io'' 2 = Some bytes \<and>
      (corpus pathB = Some (File bytes) \<or> corpus pathC = Some (File bytes)) \<and>
      corpus pathA \<noteq> Some (File bytes)) \<and>
   parallelQuery rev corpus corpusWalk ''X.io'' 2 = Some bytesC \<and>
   parallelQuery id corpus corpusWalk ''X.io'' 2 = Some bytesB"
proof -
  note inst = findBest_first_maximum
    [of corpus "''x.io''" "[pathA, pathB, pathC]" "[hitA, hitB, hitC]" rev 2 corpusWalk
      pathA pathB pathC "''X.io''"]
  have pos: "0 < matchCount hitA" "0 < matchCount hitB" "0 < matchCount hitC"
    by (simp_all add: hitA_def hitB_def hitC_def)
  have files: "set (collectFiles corpusWalk) = {pathA, pathB, pathC}"
    by (simp add: collect_corpusWalk)
  have counts: "countMatches corpus pathA (ToLower ''X.io'') = 2"
    "countMatches corpus pathB (ToLower ''X.io'') = 5"
    "countMatches corpus pathC (ToLower ''X.io'') = 5"
    by (simp_all add: ToLower_x_io count_A count_B count_C)
  have h2: "[hitA, hitB, hitC] \<noteq> [] \<and> (\<forall>r\<in>set [hitA, hitB, hitC]. 0 < matchCount r)"
    using pos by simp
  note first = inst [THEN conjunct2, THEN conjunct1, THEN mp, OF h2]
  have h3: "fairSched (rev :: queryResult list \<Rightarrow> queryResult list) \<and> (0::int) < 2 \<and>
      set (collectFiles corpusWalk) = {pathA, pathB, pathC} \<and>
      countMatches corpus pathA (ToLower ''X.io'') = 2 \<and>
      countMatches corpus pathB (ToLower ''X.io'') = 5 \<and>
      countMatches corpus pathC (ToLower ''X.io'') = 5"
    using fairSched_rev files counts by simp
  note scen = inst [THEN conjunct2, THEN conjunct2, THEN mp, OF h3]
  from inst [THEN conjunct1]
  have hits: "reportedHits corpus ''x.io'' [pathA, pathB, pathC] = [hitA, hitB, hitC]"
    by (simp add: count_A count_B count_C hitA_def hitB_def hitC_def)
  have best: "findBest [hitA, hitB, hitC] zeroResult = hitB"
    "findBest [hitC, hitB, hitA] zeroResult = hitC"
    by (simp_all add: hitA_def hitB_def hitC_def zeroResult_def)
  have ne: "pathA \<noteq> []" "pathB \<noteq> []" "pathC \<noteq> []"
    by (simp_all add: pathA_def pathB_def pathC_def)
  have runs: "parallelQuery rev corpus corpusWalk ''X.io'' 2 = Some bytesC"
    "parallelQuery id corpus corpusWalk ''X.io'' 2 = Some bytesB"
    using ne
    by (simp_all add: parallelQuery_def collect_corpusWalk ToLower_x_io arrivals_def
        reportedHits_filter count_A count_B count_C zeroResult_def Open_def corpus_paths)
  have ne3: "[hitA, hitB, hitC] \<noteq> []" "(0::int) < 2"
    by simp_all
  note fair = fairSched_rev [where ?'a = queryResult]
  show ?thesis
    by (intro conjI; fact)
qed

section \<open>unzip\<close>


lemma copyMembers_append:
  "copyMembers r out = (out @ fst (copyMembers r []), snd (copyMembers r []))"
proof (induction r arbitrary: out)
  case Nil
  then show ?case by simp
next
  case (Cons f r)
  show ?case
  proof (cases "zIsDir f \<or> \<not> HasSuffix (zName f) ''.txt''")
    case True
    with Cons.IH[of out] show ?thesis by simp
  next
    case False
    show ?thesis
    proof (cases "zOpen f")
      case (Inl e)
      with False show ?thesis by simp
    next
      case (Inr rc)
      show ?thesis
      proof (cases "serr rc")
        case None
        with False Inr Cons.IH[of "out @ sdata rc"] Cons.IH[of "sdata rc"] show ?thesis
          by simp
      next
        case (Some e)
        with False Inr show ?thesis by simp
      qed
    qed
  qed
qed


lemma unzip_opened:
  assumes "OpenReader zr fs src = Inr r"
    and "Create fs (Join dest ''subdomains.txt'') = Inr fs1"
  shows "unzip zr fs src dest =
     (fs1(Join dest ''subdomains.txt'' \<mapsto> File (fst (copyMembers r []))), snd (copyMembers r []))"
  using assms by (simp add: unzip_def Let_def split: prod.splits)

lemma unzip_not_opened:
  "OpenReader zr fs src = Inl e \<Longrightarrow> unzip zr fs src dest = (fs, Some e)"
  by (simp add: unzip_def)

lemma unzip_not_created:
  "OpenReader zr fs src = Inr r \<Longrightarrow> Create fs (Join dest ''subdomains.txt'') = Inl e \<Longrightarrow>
   unzip zr fs src dest = (fs, Some e)"
  by (simp add: unzip_def)

lemma OpenReader_stale:
  "OpenReader exZip (staleFs archive) (tmpName ''7'') = exZip archive"
  by (simp add: OpenReader_def Open_def staleFs_def tmpName_def acmeOut_def)

lemma Create_stale:
  "Create (staleFs archive) (Join ''chaos/acme'' ''subdomains.txt'') =
     Inr ((staleFs archive)(acmeOut \<mapsto> File []))"
  by (simp add: Create_def staleFs_def Join_def DirOf_def acmeOut_def tmpName_def)

lemma copy_acmeArchive: "copyMembers acmeArchive [] = (acmeText, None)"
  by (simp add: acmeArchive_def acmeText_def HasSuffix_def)





text \<open>
  Claim C8, as the code has it. Once \<^verbatim>\<open>unzip\<close> has opened the archive and
  \<^verbatim>\<open>os.Create\<close> has succeeded, the output file holds what the loop wrote from the
  members of this archive and nothing else, and the error returned is that of the loop.
  So two runs of \<^verbatim>\<open>unzip\<close> on the same archive, started on file systems that differ in
  any way, for instance in what an earlier run left in the output file, end with the same
  output file and the same error. When the archive cannot be opened or the file cannot be
  created, \<^verbatim>\<open>unzip\<close> returns before it writes, and the file system is as it was.
\<close>

theorem unzip_overwrites:
  "(OpenReader zr fs src = Inr r \<and> Create fs (Join dest ''subdomains.txt'') = Inr fs1 \<longrightarrow>
      fst (unzip zr fs src dest) (Join dest ''subdomains.txt'') =
        Some (File (fst (copyMembers r []))) \<and>
      snd (unzip zr fs src dest) = snd (copyMembers r []) \<and>
      (\<forall>fs' fs1'. OpenReader zr fs' src = Inr r \<and>
                   Create fs' (Join dest ''subdomains.txt'') = Inr fs1' \<longrightarrow>
         fst (unzip zr fs' src dest) (Join dest ''subdomains.txt'') =
           fst (unzip zr fs src dest) (Join dest ''subdomains.txt'') \<and>
         snd (unzip zr fs' src dest) = snd (unzip zr fs src dest))) \<and>
   (OpenReader zr fs src = Inl e \<longrightarrow> unzip zr fs src dest = (fs, Some e)) \<and>
   (OpenReader zr fs src = Inr r \<and> Create fs (Join dest ''subdomains.txt'') = Inl e \<longrightarrow>
      unzip zr fs src dest = (fs, Some e))"
proof (intro conjI impI allI)
  assume opened: "OpenReader zr fs src = Inr r \<and> Create fs (Join dest ''subdomains.txt'') = Inr fs1"
  then have run: "unzip zr fs src dest =
      (fs1(Join dest ''subdomains.txt'' \<mapsto> File (fst (copyMembers r []))), snd (copyMembers r []))"
    by (simp add: unzip_opened)
  from run show "fst (unzip zr fs src dest) (Join dest ''subdomains.txt'') =
      Some (File (fst (copyMembers r [])))"
    by simp
  from run show "snd (unzip zr fs src dest) = snd (copyMembers r [])"
    by simp
  fix fs' fs1'
  assume "OpenReader zr fs' src = Inr r \<and> Create fs' (Join dest ''subdomains.txt'') = Inr fs1'"
  then have run': "unzip zr fs' src dest =
      (fs1'(Join dest ''subdomains.txt'' \<mapsto> File (fst (copyMembers r []))), snd (copyMembers r []))"
    by (simp add: unzip_opened)
  from run run' show "fst (unzip zr fs' src dest) (Join dest ''subdomains.txt'') =
      fst (unzip zr fs src dest) (Join dest ''subdomains.txt'')"
    by simp
  from run run' show "snd (unzip zr fs' src dest) = snd (unzip zr fs src dest)"
    by simp
next
  assume "OpenReader zr fs src = Inl e"
  then show "unzip zr fs src dest = (fs, Some e)"
    by (rule unzip_not_opened)
next
  assume "OpenReader zr fs src = Inr r \<and> Create fs (Join dest ''subdomains.txt'') = Inl e"
  then show "unzip zr fs src dest = (fs, Some e)"
    by (simp add: unzip_not_created)
qed

theorem unzip_overwrites_witness:
  "OpenReader exZip (staleFs ''PK-acme'') (tmpName ''7'') = Inr acmeArchive \<and>
   Create (staleFs ''PK-acme'') (Join ''chaos/acme'' ''subdomains.txt'') =
     Inr ((staleFs ''PK-acme'')(acmeOut \<mapsto> File [])) \<and>
   staleFs ''PK-acme'' acmeOut = Some (File ''old.acme.com'') \<and>
   fst (unzip exZip (staleFs ''PK-acme'') (tmpName ''7'') ''chaos/acme'')
     (Join ''chaos/acme'' ''subdomains.txt'') = Some (File (fst (copyMembers acmeArchive []))) \<and>
   snd (unzip exZip (staleFs ''PK-acme'') (tmpName ''7'') ''chaos/acme'') =
     snd (copyMembers acmeArchive []) \<and>
   copyMembers acmeArchive [] = (acmeText, None) \<and>
   OpenReader exZip (freshFs ''PK-acme'') (tmpName ''7'') = Inr acmeArchive \<and>
   Create (freshFs ''PK-acme'') (Join ''chaos/acme'' ''subdomains.txt'') =
     Inr ((freshFs ''PK-acme'')(acmeOut \<mapsto> File [])) \<and>
   freshFs ''PK-acme'' acmeOut = None \<and>
   fst (unzip exZip (freshFs ''PK-acme'') (tmpName ''7'') ''chaos/acme'')
     (Join ''chaos/acme'' ''subdomains.txt'') =
   fst (unzip exZip (staleFs ''PK-acme'') (tmpName ''7'') ''chaos/acme'')
     (Join ''chaos/acme'' ''subdomains.txt'') \<and>
   OpenReader exZip (staleFs ''<html>'') (tmpName ''7'') = Inl ErrFormat \<and>
   unzip exZip (staleFs ''<html>'') (tmpName ''7'') ''chaos/acme'' =
     (staleFs ''<html>'', Some ErrFormat)"
proof -
  have opened: "OpenReader exZip (staleFs ''PK-acme'') (tmpName ''7'') = Inr acmeArchive"
    by (simp add: OpenReader_stale exZip_def)
  note created = Create_stale [of "''PK-acme''"]
  have old: "staleFs ''PK-acme'' acmeOut = Some (File ''old.acme.com'')"
    by (simp add: staleFs_def acmeOut_def tmpName_def)
  note inst = unzip_overwrites [of exZip "staleFs ''PK-acme''" "tmpName ''7''" acmeArchive
      "''chaos/acme''" "(staleFs ''PK-acme'')(acmeOut \<mapsto> File [])"]
  note first = inst [THEN conjunct1, THEN mp, OF conjI [OF opened created]]
  note new = first [THEN conjunct1]
  note res = first [THEN conjunct2, THEN conjunct1]
  note copied = copy_acmeArchive
  have opened': "OpenReader exZip (freshFs ''PK-acme'') (tmpName ''7'') = Inr acmeArchive"
    by (simp add: OpenReader_def Open_def freshFs_def tmpName_def exZip_def)
  have created': "Create (freshFs ''PK-acme'') (Join ''chaos/acme'' ''subdomains.txt'') =
      Inr ((freshFs ''PK-acme'')(acmeOut \<mapsto> File []))"
    by (simp add: Create_def freshFs_def Join_def DirOf_def acmeOut_def tmpName_def)
  have absent: "freshFs ''PK-acme'' acmeOut = None"
    by (simp add: freshFs_def acmeOut_def tmpName_def)
  from first [THEN conjunct2, THEN conjunct2] opened' created'
  have same: "fst (unzip exZip (freshFs ''PK-acme'') (tmpName ''7'') ''chaos/acme'')
       (Join ''chaos/acme'' ''subdomains.txt'') =
     fst (unzip exZip (staleFs ''PK-acme'') (tmpName ''7'') ''chaos/acme'')
       (Join ''chaos/acme'' ''subdomains.txt'')"
    by blast
  have bad: "OpenReader exZip (staleFs ''<html>'') (tmpName ''7'') = Inl ErrFormat"
    by (simp add: OpenReader_stale exZip_def)
  note kept = unzip_overwrites [of exZip "staleFs ''<html>''" "tmpName ''7''" acmeArchive
      "''chaos/acme''" "staleFs ''<html>''" ErrFormat, THEN conjunct2, THEN conjunct1, THEN mp, OF bad]
  show ?thesis
    by (intro conjI; fact)
qed

section \<open>The file system under downloadZip and the unzip worker\<close>

lemma isTemp_tmpName: "isTemp (tmpName rnd)"
  by (simp add: isTemp_def tmpName_def HasPrefix_def HasSuffix_def)

lemma isTemp_slash: "isTemp p \<Longrightarrow> \<exists>t. p = CHR ''/'' # t"
  by (cases p) (auto simp: isTemp_def HasPrefix_def)

lemma ancestors_extend: "q \<in> set (ancestors cur path) \<Longrightarrow> \<exists>t. q = cur @ t"
proof (induction path arbitrary: cur)
  case Nil
  then show ?case by simp
next
  case (Cons c cs)
  then show ?case
    by (fastforce split: if_splits)
qed

lemma ancestors_chaos: "q \<in> set (ancestors [] (chaosDir @ rest)) \<Longrightarrow> \<exists>t. q = CHR ''c'' # t"
  using ancestors_extend [of q "''c''" "''haos'' @ rest"]
  by (simp add: chaosDir_def)

lemma mkdirs_other: "p \<notin> set ds \<Longrightarrow> mkdirs fs ds p = fs p"
  by (induction ds arbitrary: fs) (auto split: option.splits node.splits)

lemma MkdirAll_temp: "isTemp p \<Longrightarrow> MkdirAll fs (chaosDir @ rest) p = fs p"
  unfolding MkdirAll_def
  by (rule mkdirs_other) (auto dest: ancestors_chaos isTemp_slash)

lemma MkdirAll_chaosDir_temp: "isTemp p \<Longrightarrow> MkdirAll fs chaosDir p = fs p"
  using MkdirAll_temp [of p fs "[]"] by simp

lemma unzip_other: "p \<noteq> Join dest ''subdomains.txt'' \<Longrightarrow> fst (unzip zr fs src dest) p = fs p"
  by (auto simp: unzip_def Create_def Let_def 
      split: sum.splits option.splits node.splits prod.splits if_splits)

lemma isTemp_not_out: "isTemp p \<Longrightarrow> p \<noteq> Join (Join chaosDir n) ''subdomains.txt''"
  by (auto dest: isTemp_slash simp: Join_def chaosDir_def)

lemma unzipWorker_temp:
  "isTemp p \<Longrightarrow>
   fst (unzipWorker zr fs job) p = (if p = unzipJob.zipPath job then None else fs p)"
  by (simp add: unzipWorker_def Let_def Remove_def split: prod.splits)
     (metis MkdirAll_temp Join_def append_Cons fst_conv isTemp_not_out unzip_other)

lemma unzipWorker_removes:
  "fst (unzipWorker zr fs job) (unzipJob.zipPath job) = None"
  by (simp add: unzipWorker_def Let_def Remove_def split: prod.splits)

lemma downloadZip_failed:
  "downloadZip net rnd fs p = (fs', path, Some e) \<Longrightarrow> fs' = fs \<and> path = []"
  by (auto simp: downloadZip_def CreateTemp_def Remove_def Let_def
      split: response.splits if_splits sum.splits option.splits prod.splits)

lemma downloadZip_fetched:
  "downloadZip net rnd fs p = (fs', path, None) \<Longrightarrow>
     path = tmpName rnd \<and> fs path = None \<and> (\<exists>b. fs' = fs(path \<mapsto> File b))"
  by (auto simp: downloadZip_def CreateTemp_def Remove_def Let_def
      split: response.splits if_splits sum.splits option.splits prod.splits)

section \<open>The steps preserve the invariants\<close>

lemma send_Some:
  "send ch x = Some ch' \<longleftrightarrow> length (buf ch) < cap ch \<and> ch' = ch\<lparr>buf := buf ch @ [x]\<rparr>"
  by (auto simp: send_def)

lemma recv_Some:
  "recv ch = Some (x, ch') \<longleftrightarrow> (\<exists>xs. buf ch = x # xs \<and> ch' = ch\<lparr>buf := xs\<rparr>)"
  by (auto simp: recv_def split: list.splits)

lemma step_Feed:
  assumes "step net zr workers Feed s = Some s'"
  obtains p ps where "toFeed s = p # ps" "fetchable p"
      "length (buf (downloadJobs s)) < cap (downloadJobs s)"
      "s' = s\<lparr>toFeed := ps,
               downloadJobs := (downloadJobs s)\<lparr>buf := buf (downloadJobs s) @ [p]\<rparr>,
               enqueued := enqueued s @ [p]\<rparr>"
  | p ps where "toFeed s = p # ps" "\<not> fetchable p" "s' = s\<lparr>toFeed := ps\<rparr>"
  using assms
  by (auto simp: fetchable_def send_Some split: list.splits if_splits option.splits)

lemma step_Fetch:
  assumes "step net zr workers (Fetch rnd) s = Some s'"
  obtains p ps fs path e where "0 < workers" "buf (downloadJobs s) = p # ps"
      "downloadZip net rnd (fsys s) p = (fs, path, e)"
      "length (buf (downloadResults s)) < cap (downloadResults s)"
      "s' = s\<lparr>fsys := fs,
               downloadJobs := (downloadJobs s)\<lparr>buf := ps\<rparr>,
               downloadResults := (downloadResults s)
                 \<lparr>buf := buf (downloadResults s) @
                    [\<lparr>downloadResult.program = p, zipPath = path, err = e\<rparr>]\<rparr>,
               fetched := fetched s @ [\<lparr>downloadResult.program = p, zipPath = path, err = e\<rparr>]\<rparr>"
proof -
  from assms have w: "0 < workers"
    by (simp split: if_splits)
  with assms obtain p jobs where r: "recv (downloadJobs s) = Some (p, jobs)"
    by (auto split: option.splits)
  then obtain ps where ps: "buf (downloadJobs s) = p # ps" "jobs = (downloadJobs s)\<lparr>buf := ps\<rparr>"
    by (auto simp: recv_Some)
  obtain fs path e where d: "downloadZip net rnd (fsys s) p = (fs, path, e)"
    by (cases "downloadZip net rnd (fsys s) p") auto
  from assms w r d obtain ch where
    "send (downloadResults s) \<lparr>downloadResult.program = p, zipPath = path, err = e\<rparr> = Some ch"
    and s': "s' = s\<lparr>fsys := fs, downloadJobs := jobs, downloadResults := ch,
       fetched := fetched s @ [\<lparr>downloadResult.program = p, zipPath = path, err = e\<rparr>]\<rparr>"
    by (auto simp: Let_def split: option.splits)
  then have "length (buf (downloadResults s)) < cap (downloadResults s)"
    and "ch = (downloadResults s)
       \<lparr>buf := buf (downloadResults s) @ [\<lparr>downloadResult.program = p, zipPath = path, err = e\<rparr>]\<rparr>"
    by (simp_all add: send_Some)
  with w ps d s' that show thesis
    by simp
qed

lemma step_Tally:
  assumes "step net zr workers Tally s = Some s'"
  obtains r rs e where "driver s = Collecting" "buf (downloadResults s) = r # rs" "err r = Some e"
      "s' = s\<lparr>downloadResults := (downloadResults s)\<lparr>buf := rs\<rparr>,
               printed := printed s @ [DownloadFailed (Name (downloadResult.program r)) e],
               failCount := failCount s + 1,
               tallied := tallied s @ [r]\<rparr>"
  | r rs where "driver s = Collecting" "buf (downloadResults s) = r # rs" "err r = None"
      "s' = s\<lparr>downloadResults := (downloadResults s)\<lparr>buf := rs\<rparr>,
               successCount := successCount s + 1,
               driver := Sending (toJob r),
               tallied := tallied s @ [r]\<rparr>"
proof -
  from assms have c: "driver s = Collecting"
    by (simp split: if_splits)
  with assms obtain r ch where "recv (downloadResults s) = Some (r, ch)"
    by (auto split: option.splits)
  then obtain rs where rs: "buf (downloadResults s) = r # rs" "ch = (downloadResults s)\<lparr>buf := rs\<rparr>"
    by (auto simp: recv_Some)
  show thesis
  proof (cases "err r")
    case None
    with assms c rs \<open>recv (downloadResults s) = Some (r, ch)\<close> that(2) [of r rs] show thesis
      by (simp add: toJob_def)
  next
    case (Some e)
    with assms c rs \<open>recv (downloadResults s) = Some (r, ch)\<close> that(1) [of r rs e] show thesis
      by simp
  qed
qed

lemma step_Handoff:
  assumes "step net zr workers Handoff s = Some s'"
  obtains job where "driver s = Sending job" "length (buf (unzipJobs s)) < cap (unzipJobs s)"
      "s' = s\<lparr>unzipJobs := (unzipJobs s)\<lparr>buf := buf (unzipJobs s) @ [job]\<rparr>, driver := Collecting\<rparr>"
  using assms
  by (auto simp: send_Some split: driver.splits option.splits)

lemma step_CloseResults:
  assumes "step net zr workers CloseResults s = Some s'"
  obtains "driver s = Collecting" "buf (downloadResults s) = []"
      "workers \<le> 0 \<or> (toFeed s = [] \<and> buf (downloadJobs s) = [])"
      "s' = s\<lparr>driver := Waiting\<rparr>"
  using assms
  by (auto split: if_splits)

lemma step_Extract:
  assumes "step net zr workers Extract s = Some s'"
  obtains job jobs fs e where "0 < workers" "buf (unzipJobs s) = job # jobs"
      "unzipWorker zr (fsys s) job = (fs, e)"
      "s' = s\<lparr>fsys := fs, unzipJobs := (unzipJobs s)\<lparr>buf := jobs\<rparr>,
               printed := printed s @ [unzipMessage job e],
               extracted := extracted s @ [(job, e)]\<rparr>"
proof -
  from assms have w: "0 < workers"
    by (simp split: if_splits)
  with assms obtain job ch where r: "recv (unzipJobs s) = Some (job, ch)"
    by (auto split: option.splits)
  then obtain jobs where jobs: "buf (unzipJobs s) = job # jobs" "ch = (unzipJobs s)\<lparr>buf := jobs\<rparr>"
    by (auto simp: recv_Some)
  obtain fs e where u: "unzipWorker zr (fsys s) job = (fs, e)"
    by (cases "unzipWorker zr (fsys s) job") auto
  from assms w r u jobs that [of job jobs fs e] show thesis
    by simp
qed

lemma step_Complete:
  assumes "step net zr workers Complete s = Some s'"
  obtains "driver s = Waiting" "buf (unzipJobs s) = []"
      "s' = s\<lparr>driver := Finished,
               printed := printed s @ [CompleteMsg (successCount s) (failCount s)]\<rparr>"
  using assms
  by (auto split: if_splits)

lemma unzipMessage_isUnzip: "isUnzipMessage (unzipMessage job e)"
  by (cases e) (simp_all add: unzipMessage_def)

lemma flowInv_step:
  assumes "flowInv toDownload workers s" and "step net zr workers a s = Some s'"
  shows "flowInv toDownload workers s'"
proof (cases a)
  case Feed
  with assms(2) have st: "step net zr workers Feed s = Some s'"
    by simp
  show ?thesis
    by (rule step_Feed [OF st]) (use assms(1) in \<open>auto simp: flowInv_def \<close>)
next
  case (Fetch rnd)
  with assms(2) have st: "step net zr workers (Fetch rnd) s = Some s'"
    by simp
  show ?thesis
    by (rule step_Fetch [OF st]) (use assms(1) in \<open>auto simp: flowInv_def \<close>)
next
  case Tally
  with assms(2) have st: "step net zr workers Tally s = Some s'"
    by simp
  show ?thesis
    by (rule step_Tally [OF st]) (use assms(1) in \<open>auto simp: flowInv_def okResults_def failedResults_def toJob_def\<close>)
next
  case Handoff
  with assms(2) have st: "step net zr workers Handoff s = Some s'"
    by simp
  show ?thesis
    by (rule step_Handoff [OF st]) (use assms(1) in \<open>auto simp: flowInv_def \<close>)
next
  case CloseResults
  with assms(2) have st: "step net zr workers CloseResults s = Some s'"
    by simp
  show ?thesis
    by (rule step_CloseResults [OF st]) (use assms(1) in \<open>auto simp: flowInv_def \<close>)
next
  case Extract
  with assms(2) have st: "step net zr workers Extract s = Some s'"
    by simp
  show ?thesis
    by (rule step_Extract [OF st]) (use assms(1) in \<open>auto simp: flowInv_def unzipMessage_isUnzip\<close>)
next
  case Complete
  with assms(2) have st: "step net zr workers Complete s = Some s'"
    by simp
  show ?thesis
    by (rule step_Complete [OF st]) (use assms(1) in \<open>auto simp: flowInv_def \<close>)
qed

lemma chanInv_step:
  assumes "chanInv toDownload workers s" and "step net zr workers a s = Some s'"
  shows "chanInv toDownload workers s'"
proof (cases a)
  case Feed
  with assms(2) have st: "step net zr workers Feed s = Some s'"
    by simp
  show ?thesis
    by (rule step_Feed [OF st]) (use assms(1) in \<open>auto simp: chanInv_def \<close>)
next
  case (Fetch rnd)
  with assms(2) have st: "step net zr workers (Fetch rnd) s = Some s'"
    by simp
  show ?thesis
    by (rule step_Fetch [OF st]) (use assms(1) in \<open>auto simp: chanInv_def \<close>)
next
  case Tally
  with assms(2) have st: "step net zr workers Tally s = Some s'"
    by simp
  show ?thesis
    by (rule step_Tally [OF st]) (use assms(1) in \<open>auto simp: chanInv_def \<close>)
next
  case Handoff
  with assms(2) have st: "step net zr workers Handoff s = Some s'"
    by simp
  show ?thesis
    by (rule step_Handoff [OF st]) (use assms(1) in \<open>auto simp: chanInv_def \<close>)
next
  case CloseResults
  with assms(2) have st: "step net zr workers CloseResults s = Some s'"
    by simp
  show ?thesis
    by (rule step_CloseResults [OF st]) (use assms(1) in \<open>auto simp: chanInv_def \<close>)
next
  case Extract
  with assms(2) have st: "step net zr workers Extract s = Some s'"
    by simp
  show ?thesis
    by (rule step_Extract [OF st]) (use assms(1) in \<open>auto simp: chanInv_def \<close>)
next
  case Complete
  with assms(2) have st: "step net zr workers Complete s = Some s'"
    by simp
  show ?thesis
    by (rule step_Complete [OF st]) (use assms(1) in \<open>auto simp: chanInv_def \<close>)
qed

lemma mentions_unzipMessage: "mentions (unzipMessage job e) = [Name (unzipJob.program job)]"
  by (cases e) (simp_all add: unzipMessage_def)

lemma namesInv_step:
  assumes "namesInv s" and "step net zr workers a s = Some s'"
  shows "namesInv s'"
proof (cases a)
  case Feed
  with assms(2) have st: "step net zr workers Feed s = Some s'"
    by simp
  show ?thesis
    by (rule step_Feed [OF st]) (use assms(1) in \<open>auto simp: namesInv_def \<close>)
next
  case (Fetch rnd)
  with assms(2) have st: "step net zr workers (Fetch rnd) s = Some s'"
    by simp
  show ?thesis
    by (rule step_Fetch [OF st]) (use assms(1) in \<open>auto simp: namesInv_def \<close>)
next
  case Tally
  with assms(2) have st: "step net zr workers Tally s = Some s'"
    by simp
  show ?thesis
    by (rule step_Tally [OF st]) (use assms(1) in \<open>auto simp: namesInv_def toJob_def\<close>)
next
  case Handoff
  with assms(2) have st: "step net zr workers Handoff s = Some s'"
    by simp
  show ?thesis
    by (rule step_Handoff [OF st]) (use assms(1) in \<open>auto simp: namesInv_def \<close>)
next
  case CloseResults
  with assms(2) have st: "step net zr workers CloseResults s = Some s'"
    by simp
  show ?thesis
    by (rule step_CloseResults [OF st]) (use assms(1) in \<open>auto simp: namesInv_def \<close>)
next
  case Extract
  with assms(2) have st: "step net zr workers Extract s = Some s'"
    by simp
  show ?thesis
    by (rule step_Extract [OF st]) (use assms(1) in \<open>auto simp: namesInv_def mentions_unzipMessage\<close>)
next
  case Complete
  with assms(2) have st: "step net zr workers Complete s = Some s'"
    by simp
  show ?thesis
    by (rule step_Complete [OF st]) (use assms(1) in \<open>auto simp: namesInv_def \<close>)
qed

lemma okPaths_simps:
  "okPaths [] = []"
  "okPaths (r # rs) = (if err r = None then downloadResult.zipPath r # okPaths rs else okPaths rs)"
  "okPaths (rs @ [r]) = (if err r = None then okPaths rs @ [downloadResult.zipPath r] else okPaths rs)"
  by (simp_all add: okPaths_def)

lemma tempInv_Fetch:
  assumes inv: "tempInv fs0 s" and st: "step net zr workers (Fetch rnd) s = Some s'"
  shows "tempInv fs0 s'"
proof (rule step_Fetch [OF st])
  fix p ps fs path e
  assume dl: "downloadZip net rnd (fsys s) p = (fs, path, e)"
    and s': "s' = s\<lparr>fsys := fs,
               downloadJobs := (downloadJobs s)\<lparr>buf := ps\<rparr>,
               downloadResults := (downloadResults s)
                 \<lparr>buf := buf (downloadResults s) @
                    [\<lparr>downloadResult.program = p, zipPath = path, err = e\<rparr>]\<rparr>,
               fetched := fetched s @ [\<lparr>downloadResult.program = p, zipPath = path, err = e\<rparr>]\<rparr>"
  show "tempInv fs0 s'"
  proof (cases e)
    case (Some er)
    with dl have "fs = fsys s"
      by (auto dest: downloadZip_failed)
    with Some s' have "fsys s' = fsys s" "inFlight s' = inFlight s"
      by (simp_all add: inFlight_def okPaths_simps)
    with inv show ?thesis
      by (simp add: tempInv_def)
  next
    case None
    with dl have path: "path = tmpName rnd" and fresh: "fsys s path = None"
      and fs: "\<exists>b. fs = (fsys s)(path \<mapsto> File b)"
      by (auto dest: downloadZip_fetched)
    have temp: "isTemp path"
      by (simp add: path isTemp_tmpName)
    with inv have "if path \<in> set (inFlight s) then fs0 path = None \<and> fsys s path \<noteq> None
        else fsys s path = fs0 path"
      by (simp add: tempInv_def)
    with fresh have new: "path \<notin> set (inFlight s)" and absent: "fs0 path = None"
      by (simp_all split: if_splits)
    have fl': "inFlight s' = okPaths (buf (downloadResults s)) @ path # heldPaths (driver s) @
        map unzipJob.zipPath (buf (unzipJobs s))"
      using s' None by (simp add: inFlight_def okPaths_simps)
    then have fl: "set (inFlight s') = insert path (set (inFlight s))"
      by (simp add: inFlight_def)
    from inv have "distinct (inFlight s)"
      by (simp add: tempInv_def)
    with new have d: "distinct (inFlight s')"
      unfolding fl' by (simp add: inFlight_def)
    have frame: "isTemp q \<Longrightarrow>
        (if q \<in> set (inFlight s') then fs0 q = None \<and> fsys s' q \<noteq> None else fsys s' q = fs0 q)" for q
    proof (cases "q = path")
      case True
      from fs s' have "fsys s' path \<noteq> None" by auto
      with True fl absent show ?thesis by simp
    next
      case False
      assume "isTemp q"
      with inv have "if q \<in> set (inFlight s) then fs0 q = None \<and> fsys s q \<noteq> None else fsys s q = fs0 q"
        by (simp add: tempInv_def)
      moreover from fs s' False have "fsys s' q = fsys s q" by auto
      ultimately show ?thesis using False fl by simp
    qed
    have "\<forall>q\<in>set (inFlight s'). isTemp q"
      using inv temp fl by (auto simp: tempInv_def)
    with d frame show ?thesis
      by (simp add: tempInv_def)
  qed
qed

lemma tempInv_Extract:
  assumes inv: "tempInv fs0 s" and st: "step net zr workers Extract s = Some s'"
  shows "tempInv fs0 s'"
proof (rule step_Extract [OF st])
  fix job jobs fs e
  assume jobs: "buf (unzipJobs s) = job # jobs"
    and uw: "unzipWorker zr (fsys s) job = (fs, e)"
    and s': "s' = s\<lparr>fsys := fs, unzipJobs := (unzipJobs s)\<lparr>buf := jobs\<rparr>,
               printed := printed s @ [unzipMessage job e],
               extracted := extracted s @ [(job, e)]\<rparr>"
  let ?z = "unzipJob.zipPath job"
  have old: "inFlight s = okPaths (buf (downloadResults s)) @ heldPaths (driver s) @
      ?z # map unzipJob.zipPath jobs"
    using jobs by (simp add: inFlight_def)
  have new: "inFlight s' = okPaths (buf (downloadResults s)) @ heldPaths (driver s) @
      map unzipJob.zipPath jobs"
    using s' by (simp add: inFlight_def)
  from inv have dist: "distinct (inFlight s)"
    by (simp add: tempInv_def)
  with old new have d: "distinct (inFlight s')" and gone: "?z \<notin> set (inFlight s')"
    and sub: "set (inFlight s) = insert ?z (set (inFlight s'))"
    by auto
  have fs: "isTemp q \<Longrightarrow> fsys s' q = (if q = ?z then None else fsys s q)" for q
    using unzipWorker_temp [of q zr "fsys s" job] uw s' by simp
  have frame: "isTemp q \<Longrightarrow>
      (if q \<in> set (inFlight s') then fs0 q = None \<and> fsys s' q \<noteq> None else fsys s' q = fs0 q)" for q
  proof -
    assume q: "isTemp q"
    with inv have old_q:
      "if q \<in> set (inFlight s) then fs0 q = None \<and> fsys s q \<noteq> None else fsys s q = fs0 q"
      by (simp add: tempInv_def)
    show ?thesis
    proof (cases "q = ?z")
      case True
      with old_q sub gone fs [OF q] show ?thesis by auto
    next
      case False
      with old_q sub fs [OF q] show ?thesis by auto
    qed
  qed
  have "\<forall>q\<in>set (inFlight s'). isTemp q"
    using inv sub by (auto simp: tempInv_def)
  with d frame show "tempInv fs0 s'"
    by (simp add: tempInv_def)
qed

lemma tempInv_same:
  assumes "tempInv fs0 s" and "fsys s' = fsys s" and "set (inFlight s') = set (inFlight s)"
    and "distinct (inFlight s')"
  shows "tempInv fs0 s'"
  using assms by (simp add: tempInv_def)

lemma tempInv_step:
  assumes inv: "tempInv fs0 s" and step: "step net zr workers a s = Some s'"
  shows "tempInv fs0 s'"
proof (cases a)
  case Feed
  with step have st: "step net zr workers Feed s = Some s'"
    by simp
  show ?thesis
    by (rule step_Feed [OF st]) (use inv in \<open>auto simp: tempInv_def inFlight_def\<close>)
next
  case (Fetch rnd)
  with inv step show ?thesis
    by (simp add: tempInv_Fetch)
next
  case Tally
  with step have st: "step net zr workers Tally s = Some s'"
    by simp
  from inv have d: "distinct (inFlight s)"
    by (simp add: tempInv_def)
  show ?thesis
  proof (rule step_Tally [OF st])
    fix r rs e
    assume "driver s = Collecting" "buf (downloadResults s) = r # rs" "err r = Some e"
      "s' = s\<lparr>downloadResults := (downloadResults s)\<lparr>buf := rs\<rparr>,
               printed := printed s @ [DownloadFailed (Name (downloadResult.program r)) e],
               failCount := failCount s + 1,
               tallied := tallied s @ [r]\<rparr>"
    with d show ?thesis
      by (intro tempInv_same [OF inv]) (auto simp: inFlight_def okPaths_simps)
  next
    fix r rs
    assume "driver s = Collecting" "buf (downloadResults s) = r # rs" "err r = None"
      "s' = s\<lparr>downloadResults := (downloadResults s)\<lparr>buf := rs\<rparr>,
               successCount := successCount s + 1,
               driver := Sending (toJob r),
               tallied := tallied s @ [r]\<rparr>"
    with d show ?thesis
      by (intro tempInv_same [OF inv]) (auto simp: inFlight_def okPaths_simps toJob_def)
  qed
next
  case Handoff
  with step have st: "step net zr workers Handoff s = Some s'"
    by simp
  from inv have d: "distinct (inFlight s)"
    by (simp add: tempInv_def)
  show ?thesis
  proof (rule step_Handoff [OF st])
    fix job
    assume "driver s = Sending job"
      "s' = s\<lparr>unzipJobs := (unzipJobs s)\<lparr>buf := buf (unzipJobs s) @ [job]\<rparr>, driver := Collecting\<rparr>"
    with d show ?thesis
      by (intro tempInv_same [OF inv]) (auto simp: inFlight_def)
  qed
next
  case CloseResults
  with step have st: "step net zr workers CloseResults s = Some s'"
    by simp
  show ?thesis
    by (rule step_CloseResults [OF st]) (use inv in \<open>auto simp: tempInv_def inFlight_def\<close>)
next
  case Extract
  with inv step show ?thesis
    by (simp add: tempInv_Extract)
next
  case Complete
  with step have st: "step net zr workers Complete s = Some s'"
    by simp
  show ?thesis
    by (rule step_Complete [OF st]) (use inv in \<open>auto simp: tempInv_def inFlight_def\<close>)
qed

section \<open>Runs of the pipeline\<close>

lemma exec_invariant:
  assumes "P s"
    and "\<And>a s s'. P s \<Longrightarrow> step net zr workers a s = Some s' \<Longrightarrow> P s'"
    and "exec net zr workers sched s = Some s'"
  shows "P s'"
  using assms(1,3)
proof (induction sched arbitrary: s)
  case Nil
  then show ?case by simp
next
  case (Cons a sched)
  from Cons.prems(2) obtain s1 where s1: "step net zr workers a s = Some s1"
    and rest: "exec net zr workers sched s1 = Some s'"
    by (auto split: option.splits)
  from assms(2) [OF Cons.prems(1) s1] have "P s1" .
  from Cons.IH [OF this rest] show ?case .
qed

lemma initPipeline_flowInv:
  "initPipeline fs0 toDownload workers = Some s0 \<Longrightarrow> flowInv toDownload workers s0"
  by (auto simp: initPipeline_def flowInv_def makeChan_def okResults_def failedResults_def
      split: if_splits)

lemma initPipeline_chanInv:
  "initPipeline fs0 toDownload workers = Some s0 \<Longrightarrow> chanInv toDownload workers s0"
  by (auto simp: initPipeline_def chanInv_def makeChan_def split: if_splits)

lemma initPipeline_namesInv:
  "initPipeline fs0 toDownload workers = Some s0 \<Longrightarrow> namesInv s0"
  by (auto simp: initPipeline_def namesInv_def makeChan_def split: if_splits)

lemma initPipeline_tempInv:
  "initPipeline fs0 toDownload workers = Some s0 \<Longrightarrow> tempInv fs0 s0"
  by (auto simp: initPipeline_def tempInv_def inFlight_def okPaths_def makeChan_def
      MkdirAll_chaosDir_temp split: if_splits)

lemma parallelDownload_Some:
  assumes "parallelDownload net zr sched fs0 programs target workers = Some s"
  obtains toDownload s0 where "selectTargets programs target = Some toDownload"
    and "initPipeline fs0 toDownload workers = Some s0"
    and "exec net zr workers sched s0 = Some s"
  using assms by (auto simp: parallelDownload_def split: option.splits)

lemma run_flowInv:
  assumes "selectTargets programs target = Some toDownload"
    and "parallelDownload net zr sched fs0 programs target workers = Some s"
  shows "flowInv toDownload workers s"
proof (rule parallelDownload_Some [OF assms(2)])
  fix td s0
  assume "selectTargets programs target = Some td"
    and init: "initPipeline fs0 td workers = Some s0"
    and run: "exec net zr workers sched s0 = Some s"
  with assms(1) have "td = toDownload"
    by simp
  with init have "flowInv toDownload workers s0"
    by (simp add: initPipeline_flowInv)
  from this flowInv_step run show ?thesis
    by (rule exec_invariant)
qed

lemma run_chanInv:
  assumes "selectTargets programs target = Some toDownload"
    and "parallelDownload net zr sched fs0 programs target workers = Some s"
  shows "chanInv toDownload workers s"
proof (rule parallelDownload_Some [OF assms(2)])
  fix td s0
  assume "selectTargets programs target = Some td"
    and init: "initPipeline fs0 td workers = Some s0"
    and run: "exec net zr workers sched s0 = Some s"
  with assms(1) have "td = toDownload"
    by simp
  with init have "chanInv toDownload workers s0"
    by (simp add: initPipeline_chanInv)
  from this chanInv_step run show ?thesis
    by (rule exec_invariant)
qed

lemma run_namesInv:
  assumes "parallelDownload net zr sched fs0 programs target workers = Some s"
  shows "namesInv s"
proof (rule parallelDownload_Some [OF assms])
  fix td s0
  assume init: "initPipeline fs0 td workers = Some s0"
    and run: "exec net zr workers sched s0 = Some s"
  from initPipeline_namesInv [OF init] namesInv_step run show ?thesis
    by (rule exec_invariant)
qed

lemma run_tempInv:
  assumes "parallelDownload net zr sched fs0 programs target workers = Some s"
  shows "tempInv fs0 s"
proof (rule parallelDownload_Some [OF assms])
  fix td s0
  assume init: "initPipeline fs0 td workers = Some s0"
    and run: "exec net zr workers sched s0 = Some s"
  from initPipeline_tempInv [OF init] tempInv_step run show ?thesis
    by (rule exec_invariant)
qed

lemma run_selected:
  assumes "parallelDownload net zr sched fs0 programs target workers = Some s"
  obtains toDownload where "selectTargets programs target = Some toDownload"
  using assms by (auto simp: parallelDownload_def split: option.splits)

lemma count_list_filter:
  "count_list (filter P xs) x = (if P x then count_list xs x else 0)"
  by (induction xs) auto

lemma finished_drained:
  assumes "flowInv toDownload workers s" and "chanInv toDownload workers s"
    and "driver s = Finished"
  shows "fetched s = tallied s" and "buf (unzipJobs s) = []" and "heldJobs (driver s) = []"
    and "0 < workers \<Longrightarrow> enqueued s = filter fetchable toDownload"
    and "0 < workers \<Longrightarrow> map downloadResult.program (fetched s) = enqueued s"
  using assms by (auto simp: flowInv_def chanInv_def)

lemma flowInvD:
  assumes "flowInv toDownload workers s"
  shows "enqueued s @ filter fetchable (toFeed s) = filter fetchable toDownload"
    and "enqueued s = map downloadResult.program (fetched s) @ buf (downloadJobs s)"
    and "fetched s = tallied s @ buf (downloadResults s)"
    and "successCount s = int (length (okResults (tallied s)))"
    and "failCount s = int (length (failedResults (tallied s)))"
    and "map toJob (okResults (tallied s)) =
           map fst (extracted s) @ buf (unzipJobs s) @ heldJobs (driver s)"
    and "filter isUnzipMessage (printed s) = map (\<lambda>(job, e). unzipMessage job e) (extracted s)"
  using assms unfolding flowInv_def by blast+

lemma Feed_enabled:
  assumes flow: "flowInv toDownload workers s" and chan: "chanInv toDownload workers s"
    and more: "toFeed s \<noteq> []"
  shows "step net zr workers Feed s \<noteq> None"
proof -
  from more obtain p ps where feed: "toFeed s = p # ps"
    by (cases "toFeed s") auto
  show ?thesis
  proof (cases "fetchable p")
    case False
    with feed show ?thesis by (auto simp: fetchable_def)
  next
    case True
    from flowInvD(1) [OF flow] feed True
    have "enqueued s @ p # filter fetchable ps = filter fetchable toDownload"
      by simp
    then have "length (enqueued s) + 1 + length (filter fetchable ps) = length (filter fetchable toDownload)"
      by (metis add.assoc length_append length_Cons Suc_eq_plus1 add.commute)
    moreover have "length (filter fetchable toDownload) \<le> length toDownload"
      by simp
    moreover from flowInvD(2) [OF flow] have "length (buf (downloadJobs s)) \<le> length (enqueued s)"
      by simp
    ultimately have "length (buf (downloadJobs s)) < length toDownload"
      by linarith
    with chan have "length (buf (downloadJobs s)) < cap (downloadJobs s)"
      by (simp add: chanInv_def)
    with feed True show ?thesis
      by (simp add: fetchable_def send_def)
  qed
qed

lemma results_bounded:
  assumes flow: "flowInv toDownload workers s"
  shows "length (buf (downloadResults s)) + length (buf (downloadJobs s)) \<le> length toDownload"
proof -
  from flowInvD(1) [OF flow] have "length (enqueued s) \<le> length (filter fetchable toDownload)"
    by (metis length_append le_add1)
  moreover have "length (filter fetchable toDownload) \<le> length toDownload"
    by simp
  moreover from flowInvD(2) [OF flow]
  have "length (enqueued s) = length (fetched s) + length (buf (downloadJobs s))"
    by simp
  moreover from flowInvD(3) [OF flow] have "length (buf (downloadResults s)) \<le> length (fetched s)"
    by simp
  ultimately show ?thesis
    by linarith
qed

lemma Fetch_enabled:
  assumes flow: "flowInv toDownload workers s" and chan: "chanInv toDownload workers s"
    and w: "0 < workers" and jobs: "buf (downloadJobs s) \<noteq> []"
  shows "step net zr workers (Fetch rnd) s \<noteq> None"
proof -
  from jobs obtain p ps where ps: "buf (downloadJobs s) = p # ps"
    by (cases "buf (downloadJobs s)") auto
  with results_bounded [OF flow] chan
  have "length (buf (downloadResults s)) < cap (downloadResults s)"
    by (simp add: chanInv_def)
  with w ps show ?thesis
    by (simp add: recv_def send_def Let_def split: prod.splits)
qed


section \<open>Every run comes to its end\<close>

lemma step_workLeft:
  assumes "step net zr workers a s = Some s'"
  shows "workLeft s' < workLeft s"
proof (cases a)
  case Feed
  with assms have st: "step net zr workers Feed s = Some s'"
    by simp
  show ?thesis
    by (rule step_Feed [OF st]) (auto simp: workLeft_def)
next
  case (Fetch rnd)
  with assms have st: "step net zr workers (Fetch rnd) s = Some s'"
    by simp
  show ?thesis
    by (rule step_Fetch [OF st]) (auto simp: workLeft_def)
next
  case Tally
  with assms have st: "step net zr workers Tally s = Some s'"
    by simp
  show ?thesis
    by (rule step_Tally [OF st]) (auto simp: workLeft_def)
next
  case Handoff
  with assms have st: "step net zr workers Handoff s = Some s'"
    by simp
  show ?thesis
    by (rule step_Handoff [OF st]) (auto simp: workLeft_def)
next
  case CloseResults
  with assms have st: "step net zr workers CloseResults s = Some s'"
    by simp
  show ?thesis
    by (rule step_CloseResults [OF st]) (auto simp: workLeft_def)
next
  case Extract
  with assms have st: "step net zr workers Extract s = Some s'"
    by simp
  show ?thesis
    by (rule step_Extract [OF st]) (auto simp: workLeft_def)
next
  case Complete
  with assms have st: "step net zr workers Complete s = Some s'"
    by simp
  show ?thesis
    by (rule step_Complete [OF st]) (auto simp: workLeft_def)
qed

lemma exec_workLeft:
  "exec net zr workers sched s = Some s' \<Longrightarrow> length sched + workLeft s' \<le> workLeft s"
proof (induction sched arbitrary: s)
  case Nil
  then show ?case by simp
next
  case (Cons a sched)
  from Cons.prems obtain s1 where s1: "step net zr workers a s = Some s1"
    and rest: "exec net zr workers sched s1 = Some s'"
    by (auto split: option.splits)
  from Cons.IH [OF rest] step_workLeft [OF s1] show ?case
    by simp
qed

lemma exec_append:
  "exec net zr workers (as @ bs) s =
     (case exec net zr workers as s of None \<Rightarrow> None | Some s' \<Rightarrow> exec net zr workers bs s')"
  by (induction as arbitrary: s) (auto split: option.splits)

lemma no_worker_idle:
  assumes flow: "flowInv toDownload workers s" and chan: "chanInv toDownload workers s"
    and w: "workers \<le> 0"
  shows "buf (downloadResults s) = []" "buf (unzipJobs s) = []" "heldJobs (driver s) = []"
proof -
  from chan w have "fetched s = []"
    by (simp add: chanInv_def)
  with flowInvD(3) [OF flow] show "buf (downloadResults s) = []"
    by simp
  from \<open>fetched s = []\<close> flowInvD(3) [OF flow] have "tallied s = []"
    by simp
  with flowInvD(6) [OF flow] show "buf (unzipJobs s) = []" "heldJobs (driver s) = []"
    by (simp_all add: okResults_def)
qed



lemma step_enabled:
  assumes flow: "flowInv toDownload workers s" and chan: "chanInv toDownload workers s"
    and going: "driver s \<noteq> Finished"
  shows "\<exists>a. step net zr workers a s \<noteq> None"
proof (cases "toFeed s = []")
  case False
  with Feed_enabled [OF flow chan] show ?thesis
    by blast
next
  case fed: True
  show ?thesis
  proof (cases "0 < workers \<and> buf (downloadJobs s) \<noteq> []")
    case True
    with Fetch_enabled [OF flow chan, of net zr "[]"] show ?thesis
      by blast
  next
    case idle: False
    show ?thesis
    proof (cases "driver s")
      case Collecting
      show ?thesis
      proof (cases "buf (downloadResults s)")
        case Nil
        with Collecting fed idle have "step net zr workers CloseResults s \<noteq> None"
          by auto
        then show ?thesis ..
      next
        case (Cons r rs)
        with Collecting have "step net zr workers Tally s \<noteq> None"
          by (cases "err r") (simp_all add: recv_def)
        then show ?thesis ..
      qed
    next
      case (Sending job)
      with no_worker_idle(3) [OF flow chan] have w: "0 < workers"
        by fastforce
      show ?thesis
      proof (cases "length (buf (unzipJobs s)) < cap (unzipJobs s)")
        case True
        with Sending have "step net zr workers Handoff s \<noteq> None"
          by (simp add: send_def)
        then show ?thesis ..
      next
        case False
        with chan w have "buf (unzipJobs s) \<noteq> []"
          by (auto simp: chanInv_def)
        with w have "step net zr workers Extract s \<noteq> None"
          by (cases "buf (unzipJobs s)") (simp_all add: recv_def Let_def split: prod.splits)
        then show ?thesis ..
      qed
    next
      case Waiting
      show ?thesis
      proof (cases "buf (unzipJobs s)")
        case Nil
        with Waiting have "step net zr workers Complete s \<noteq> None"
          by simp
        then show ?thesis ..
      next
        case (Cons job jobs)
        with no_worker_idle(2) [OF flow chan] have "0 < workers"
          by fastforce
        with Cons have "step net zr workers Extract s \<noteq> None"
          by (simp add: recv_def Let_def split: prod.splits)
        then show ?thesis ..
      qed
    next
      case Finished
      with going show ?thesis
        by simp
    qed
  qed
qed

lemma run_can_finish:
  assumes "flowInv toDownload workers s" and "chanInv toDownload workers s"
  shows "\<exists>sched s'. exec net zr workers sched s = Some s' \<and> driver s' = Finished"
  using assms
proof (induction "workLeft s" arbitrary: s rule: less_induct)
  case less
  show ?case
  proof (cases "driver s = Finished")
    case True
    then have "exec net zr workers [] s = Some s \<and> driver s = Finished"
      by simp
    then show ?thesis
      by blast
  next
    case False
    from step_enabled [OF less.prems False, of net zr] obtain a s1
      where s1: "step net zr workers a s = Some s1"
      by auto
    from step_workLeft [OF s1] flowInv_step [OF less.prems(1) s1] chanInv_step [OF less.prems(2) s1]
      less.hyps [of s1]
    obtain sched s' where "exec net zr workers sched s1 = Some s'" "driver s' = Finished"
      by blast
    with s1 have "exec net zr workers (a # sched) s = Some s' \<and> driver s' = Finished"
      by simp
    then show ?thesis
      by blast
  qed
qed

text \<open>
  No run of \<^verbatim>\<open>parallelDownload\<close> is stuck or endless: a schedule has at most
  \<open>5 * length toDownload + 2\<close> actions, and from whatever state a run has reached, some
  further actions bring the main goroutine to its last line.
\<close>

lemma parallelDownload_finishes:
  assumes "selectTargets programs target = Some toDownload"
    and "parallelDownload net zr sched fs0 programs target workers = Some s"
  shows "length sched \<le> 5 * length toDownload + 2"
    and "\<exists>more s'. parallelDownload net zr (sched @ more) fs0 programs target workers = Some s' \<and>
           driver s' = Finished"
proof -
  from assms obtain s0 where init: "initPipeline fs0 toDownload workers = Some s0"
    and run: "exec net zr workers sched s0 = Some s"
    by (auto simp: parallelDownload_def split: option.splits)
  from init have "workLeft s0 = 5 * length toDownload + 2"
    by (auto simp: initPipeline_def workLeft_def makeChan_def split: if_splits)
  with exec_workLeft [OF run] show "length sched \<le> 5 * length toDownload + 2"
    by simp
  from run_can_finish [OF run_flowInv [OF assms] run_chanInv [OF assms], of net zr]
  obtain more s' where "exec net zr workers more s = Some s'" "driver s' = Finished"
    by blast
  with assms(1) init run
  have "parallelDownload net zr (sched @ more) fs0 programs target workers = Some s' \<and>
      driver s' = Finished"
    by (simp add: parallelDownload_def exec_append)
  then show "\<exists>more s'. parallelDownload net zr (sched @ more) fs0 programs target workers = Some s' \<and>
      driver s' = Finished"
    by blast
qed

section \<open>The example runs\<close>

lemma select_all: "selectTargets programs ''all'' = Some programs"
  by (simp add: selectTargets_def)

lemma lower_names:
  "ToLower ''Html'' = ''html''" "ToLower ''html'' = ''html''" "ToLower ''acme'' = ''acme''"
  "ToLower ''nourl'' = ''nourl''" "ToLower ''cut'' = ''cut''"
  by (simp_all add: ToLower_def toLowerByte_def char_of_eq_iff)

lemma select_html: "selectTargets exPrograms ''Html'' = Some [htmlP]"
  by (simp add: selectTargets_def EqualFold_def lower_names exPrograms_def acme_def noUrlP_def
      cutP_def htmlP_def)

lemmas run_defs = parallelDownload_def select_all select_html initPipeline_def exPrograms_def
  exSchedule_def rerunSchedule_def rerunFs_def burstSchedule_def fullSchedule_def acme_def
  cutP_def htmlP_def noUrlP_def emptyP_def exNet_def exZip_def makeChan_def send_def recv_def
  downloadZip_def CreateTemp_def tmpName_def Remove_def unzipWorker_def unzip_def
  OpenReader_def Open_def Create_def Join_def DirOf_def MkdirAll_def chaosDir_def
  acmeArchive_def HasSuffix_def unzipMessage_def Let_def

lemma exFinal_run:
  "parallelDownload exNet exZip exSchedule Map.empty exPrograms ''all'' 1 = Some exFinal"
proof -
  have "parallelDownload exNet exZip exSchedule Map.empty exPrograms ''all'' 1 \<noteq> None"
    by (simp add: run_defs)
  then show ?thesis
    by (simp add: exFinal_def)
qed

lemma exFinal_driver: "driver exFinal = Finished"
  by (simp add: exFinal_def run_defs)

lemma exFinal_counts: "successCount exFinal = 2" "failCount exFinal = 1"
  by (simp_all add: exFinal_def run_defs)

lemma exFinal_enqueued: "enqueued exFinal = [acme, cutP, htmlP]"
  by (simp add: exFinal_def run_defs)

lemma exFinal_extracted:
  "extracted exFinal =
     [(\<lparr>program = acme, zipPath = tmpName ''1''\<rparr>, None),
      (\<lparr>program = htmlP, zipPath = tmpName ''3''\<rparr>, Some ErrFormat)]"
  by (simp add: exFinal_def run_defs)

lemma exFinal_printed:
  "printed exFinal =
     [Downloading 5 1, DownloadFailed ''cut'' ErrUnexpectedEOF, Unzipped ''acme'',
      UnzipFailed ''html'' ErrFormat, CompleteMsg 2 1]"
  by (simp add: exFinal_def run_defs)

lemma exFinal_out: "fsys exFinal acmeOut = Some (File acmeText)"
  by (simp add: exFinal_def run_defs acmeOut_def acmeText_def)

lemma rerun_selected:
  "parallelDownload net zr sched fs exPrograms ''Html'' workers =
     (case initPipeline fs [htmlP] workers of
        None \<Rightarrow> None
      | Some s0 \<Rightarrow> exec net zr workers sched s0)"
  by (simp add: parallelDownload_def select_html)

lemma rerunFinal_run:
  "parallelDownload exNet exZip rerunSchedule rerunFs exPrograms ''Html'' 1 = Some rerunFinal"
proof -
  have "parallelDownload exNet exZip rerunSchedule rerunFs exPrograms ''Html'' 1 \<noteq> None"
    unfolding rerun_selected by (simp add: run_defs)
  then show ?thesis
    by (simp add: rerunFinal_def)
qed

lemma rerunFinal_facts:
  "driver rerunFinal = Finished" "successCount rerunFinal = 1" "failCount rerunFinal = 0"
  "fsys rerunFinal ''chaos/html/subdomains.txt'' = Some (File ''old.html.com'')"
  unfolding rerunFinal_def rerun_selected by (simp_all add: run_defs)

lemma burstFinal_run:
  "parallelDownload exNet exZip burstSchedule Map.empty [acme, acme, acme] ''all'' 1 =
     Some burstFinal"
proof -
  have "parallelDownload exNet exZip burstSchedule Map.empty [acme, acme, acme] ''all'' 1 \<noteq> None"
    by (simp add: run_defs)
  then show ?thesis
    by (simp add: burstFinal_def)
qed






section \<open>The claims about the pipeline\<close>

text \<open>
  Claim C5. In every state of every run, the jobs sent so far followed by the fetchable
  programs that the feeder has still to look at are the fetchable programs of the
  selection, in the order of the selection. So a program with an empty URL or a count of
  zero or less is never sent (and no line is printed about a program that was not sent),
  and when a run with workers has finished, every other selected program has been sent
  exactly as often as it occurs in the selection: once, for a selection without
  repetition.
\<close>

theorem feeder_skips_unfetchable:
  assumes "selectTargets programs target = Some toDownload"
    and "parallelDownload net zr sched fs0 programs target workers = Some s"
  shows "enqueued s @ filter fetchable (toFeed s) = filter fetchable toDownload \<and>
         (\<forall>p. URL p = [] \<or> Count p \<le> 0 \<longrightarrow>
              p \<notin> set (enqueued s) \<and> p \<notin> set (buf (downloadJobs s))) \<and>
         set (concat (map mentions (printed s))) \<subseteq> Name ` set (enqueued s) \<and>
         (0 < workers \<and> driver s = Finished \<longrightarrow>
            toFeed s = [] \<and>
            (\<forall>p. count_list (enqueued s) p =
                 (if URL p \<noteq> [] \<and> 0 < Count p then count_list toDownload p else 0)))"
proof -
  note flow = run_flowInv [OF assms]
  note chan = run_chanInv [OF assms]
  note names = run_namesInv [OF assms(2)]
  note feed = flowInvD(1) [OF flow]
  have sent: "set (enqueued s) \<subseteq> set (filter fetchable toDownload)"
    using feed by (metis set_append Un_upper1)
  have skipped: "\<forall>p. URL p = [] \<or> Count p \<le> 0 \<longrightarrow>
      p \<notin> set (enqueued s) \<and> p \<notin> set (buf (downloadJobs s))"
  proof (intro allI impI)
    fix p :: Program
    assume "URL p = [] \<or> Count p \<le> 0"
    then have "\<not> fetchable p"
      by (auto simp: fetchable_def)
    with sent have "p \<notin> set (enqueued s)"
      by auto
    moreover from names have "set (buf (downloadJobs s)) \<subseteq> set (enqueued s)"
      by (simp add: namesInv_def)
    ultimately show "p \<notin> set (enqueued s) \<and> p \<notin> set (buf (downloadJobs s))"
      by auto
  qed
  from names have quiet: "set (concat (map mentions (printed s))) \<subseteq> Name ` set (enqueued s)"
    by (simp add: namesInv_def)
  have finished: "0 < workers \<and> driver s = Finished \<longrightarrow>
      toFeed s = [] \<and>
      (\<forall>p. count_list (enqueued s) p =
           (if URL p \<noteq> [] \<and> 0 < Count p then count_list toDownload p else 0))"
  proof (intro impI)
    assume fin: "0 < workers \<and> driver s = Finished"
    with chan have empty: "toFeed s = []"
      by (simp add: chanInv_def)
    with feed have "enqueued s = filter fetchable toDownload"
      by simp
    then have "count_list (enqueued s) p =
        (if URL p \<noteq> [] \<and> 0 < Count p then count_list toDownload p else 0)" for p
      by (simp add: count_list_filter fetchable_def)
    with empty show "toFeed s = [] \<and>
      (\<forall>p. count_list (enqueued s) p =
           (if URL p \<noteq> [] \<and> 0 < Count p then count_list toDownload p else 0))"
      by simp
  qed
  from feed skipped quiet finished show ?thesis
    by blast
qed

theorem feeder_skips_unfetchable_witness:
  "selectTargets exPrograms ''all'' = Some exPrograms \<and>
   parallelDownload exNet exZip exSchedule Map.empty exPrograms ''all'' 1 = Some exFinal \<and>
   (0::int) < 1 \<and> driver exFinal = Finished \<and>
   exPrograms = [acme, noUrlP, cutP, htmlP, emptyP] \<and>
   URL noUrlP = [] \<and> Count emptyP \<le> 0 \<and>
   enqueued exFinal = [acme, cutP, htmlP] \<and>
   enqueued exFinal @ filter fetchable (toFeed exFinal) = filter fetchable exPrograms \<and>
   noUrlP \<notin> set (enqueued exFinal) \<and> emptyP \<notin> set (enqueued exFinal) \<and>
   set (concat (map mentions (printed exFinal))) \<subseteq> Name ` set (enqueued exFinal) \<and>
   toFeed exFinal = [] \<and>
   count_list (enqueued exFinal) acme = count_list exPrograms acme \<and>
   count_list (enqueued exFinal) noUrlP = 0"
proof -
  note init = select_all [of exPrograms]
  note run = exFinal_run
  note inst = feeder_skips_unfetchable [OF init run]
  note fin = exFinal_driver
  note sent = exFinal_enqueued
  note programs = exPrograms_def
  have w: "(0::int) < 1"
    by simp
  have bad: "URL noUrlP = []" "Count emptyP \<le> 0"
    by (simp_all add: noUrlP_def emptyP_def)
  note feed = inst [THEN conjunct1]
  from inst bad have skipped: "noUrlP \<notin> set (enqueued exFinal)" "emptyP \<notin> set (enqueued exFinal)"
    by blast+
  note quiet = inst [THEN conjunct2, THEN conjunct2, THEN conjunct1]
  note finished = inst [THEN conjunct2, THEN conjunct2, THEN conjunct2, THEN mp, OF conjI [OF w fin]]
  note empty = finished [THEN conjunct1]
  from finished have c1: "count_list (enqueued exFinal) acme = count_list exPrograms acme"
    by (simp add: acme_def)
  from finished bad have c2: "count_list (enqueued exFinal) noUrlP = 0"
    by simp
  show ?thesis
    by (intro conjI; fact)
qed

text \<open>
  Claim C3. When a run has finished, the success counter is the number of results
  without error that the download workers have sent, and the failure counter the number
  of results with an error; these are the numbers in the last line printed. Nothing in
  this depends on the extractions: every result without error was handed to extraction
  (in the order of the results), every extraction printed its line, a failure line when
  \<^verbatim>\<open>unzip\<close> returned an error, and the step of an unzip worker leaves both counters as
  they are, whatever \<^verbatim>\<open>unzip\<close> returned.
\<close>

theorem tally_counts_fetch_outcomes:
  assumes "parallelDownload net zr sched fs0 programs target workers = Some s"
    and "driver s = Finished"
  shows "successCount s = int (length (filter (\<lambda>r. err r = None) (fetched s))) \<and>
         failCount s = int (length (filter (\<lambda>r. err r \<noteq> None) (fetched s))) \<and>
         last (printed s) = CompleteMsg (successCount s) (failCount s) \<and>
         map fst (extracted s) = map toJob (filter (\<lambda>r. err r = None) (fetched s)) \<and>
         filter isUnzipMessage (printed s) = map (\<lambda>(job, e). unzipMessage job e) (extracted s) \<and>
         (\<forall>t t'. step net zr workers Extract t = Some t' \<longrightarrow>
            successCount t' = successCount t \<and> failCount t' = failCount t \<and>
            (\<exists>job e. extracted t' = extracted t @ [(job, e)] \<and>
               printed t' = printed t @ [unzipMessage job e]))"
proof (rule run_selected [OF assms(1)])
  fix toDownload
  assume sel: "selectTargets programs target = Some toDownload"
  note flow = run_flowInv [OF sel assms(1)]
  note chan = run_chanInv [OF sel assms(1)]
  note drained = finished_drained(1-3) [OF flow chan assms(2)]
  from flowInvD(4) [OF flow] drained
  have ok: "successCount s = int (length (filter (\<lambda>r. err r = None) (fetched s)))"
    by (simp add: okResults_def)
  from flowInvD(5) [OF flow] drained
  have failed: "failCount s = int (length (filter (\<lambda>r. err r \<noteq> None) (fetched s)))"
    by (simp add: failedResults_def)
  from chan assms(2) have total: "last (printed s) = CompleteMsg (successCount s) (failCount s)"
    by (simp add: chanInv_def)
  from flowInvD(6) [OF flow] drained
  have handed: "map fst (extracted s) = map toJob (filter (\<lambda>r. err r = None) (fetched s))"
    by (simp add: okResults_def)
  note lines = flowInvD(7) [OF flow]
  have untouched: "\<forall>t t'. step net zr workers Extract t = Some t' \<longrightarrow>
      successCount t' = successCount t \<and> failCount t' = failCount t \<and>
      (\<exists>job e. extracted t' = extracted t @ [(job, e)] \<and>
         printed t' = printed t @ [unzipMessage job e])"
  proof (intro allI impI)
    fix t t'
    assume st: "step net zr workers Extract t = Some t'"
    show "successCount t' = successCount t \<and> failCount t' = failCount t \<and>
      (\<exists>job e. extracted t' = extracted t @ [(job, e)] \<and>
         printed t' = printed t @ [unzipMessage job e])"
      by (rule step_Extract [OF st]) auto
  qed
  from ok failed total handed lines untouched show ?thesis
    by blast
qed

theorem tally_counts_fetch_outcomes_witness:
  "parallelDownload exNet exZip exSchedule Map.empty exPrograms ''all'' 1 = Some exFinal \<and>
   driver exFinal = Finished \<and>
   successCount exFinal = int (length (filter (\<lambda>r. err r = None) (fetched exFinal))) \<and>
   failCount exFinal = int (length (filter (\<lambda>r. err r \<noteq> None) (fetched exFinal))) \<and>
   last (printed exFinal) = CompleteMsg (successCount exFinal) (failCount exFinal) \<and>
   map fst (extracted exFinal) = map toJob (filter (\<lambda>r. err r = None) (fetched exFinal)) \<and>
   filter isUnzipMessage (printed exFinal) =
     map (\<lambda>(job, e). unzipMessage job e) (extracted exFinal) \<and>
   successCount exFinal = 2 \<and> failCount exFinal = 1 \<and>
   map snd (extracted exFinal) = [None, Some ErrFormat] \<and>
   printed exFinal =
     [Downloading 5 1, DownloadFailed ''cut'' ErrUnexpectedEOF, Unzipped ''acme'',
      UnzipFailed ''html'' ErrFormat, CompleteMsg 2 1] \<and>
   step exNet exZip 1 Extract exWaiting = Some (the (step exNet exZip 1 Extract exWaiting)) \<and>
   successCount (the (step exNet exZip 1 Extract exWaiting)) = successCount exWaiting \<and>
   failCount (the (step exNet exZip 1 Extract exWaiting)) = failCount exWaiting \<and>
   printed (the (step exNet exZip 1 Extract exWaiting)) =
     printed exWaiting @ [UnzipFailed ''html'' ErrFormat]"
proof -
  note run = exFinal_run
  note fin = exFinal_driver
  note inst = tally_counts_fetch_outcomes [OF run fin]
  note c1 = inst [THEN conjunct1]
  note c2 = inst [THEN conjunct2, THEN conjunct1]
  note c3 = inst [THEN conjunct2, THEN conjunct2, THEN conjunct1]
  note c4 = inst [THEN conjunct2, THEN conjunct2, THEN conjunct2, THEN conjunct1]
  note c5 = inst [THEN conjunct2, THEN conjunct2, THEN conjunct2, THEN conjunct2, THEN conjunct1]
  note c6 = inst [THEN conjunct2, THEN conjunct2, THEN conjunct2, THEN conjunct2, THEN conjunct2]
  note counts = exFinal_counts
  have outcomes: "map snd (extracted exFinal) = [None, Some ErrFormat]"
    by (simp add: exFinal_extracted)
  note lines = exFinal_printed
  have "step exNet exZip 1 Extract exWaiting \<noteq> None"
    by (simp add: exWaiting_def run_defs)
  then have moved:
    "step exNet exZip 1 Extract exWaiting = Some (the (step exNet exZip 1 Extract exWaiting))"
    by simp
  from c6 moved
  have same: "successCount (the (step exNet exZip 1 Extract exWaiting)) = successCount exWaiting"
    "failCount (the (step exNet exZip 1 Extract exWaiting)) = failCount exWaiting"
    by blast+
  have reported: "printed (the (step exNet exZip 1 Extract exWaiting)) =
      printed exWaiting @ [UnzipFailed ''html'' ErrFormat]"
    by (simp add: exWaiting_def run_defs)
  show ?thesis
    by (intro conjI; fact)
qed

text \<open>
  Claim C4. In every state of a run, a temporary archive path that no result or job in
  the pipeline refers to is as it was before the run; when the run has finished, nothing
  is in flight, so every temporary archive path is as it was before the run: no archive
  that the run created remains. Every run can be continued to this end. The two steps
  behind this: when \<^verbatim>\<open>downloadZip\<close> returns an error, also after a stream copy that
  broke off, the file system is as it was before the call, and the body of the unzip
  worker's loop leaves no file at the path of its archive, whatever \<^verbatim>\<open>unzip\<close> returned.
\<close>

theorem no_temp_files_remain:
  assumes "parallelDownload net zr sched fs0 programs target workers = Some s"
  shows "(\<forall>p. isTemp p \<and> p \<notin> set (inFlight s) \<longrightarrow> fsys s p = fs0 p) \<and>
         (driver s = Finished \<longrightarrow> inFlight s = [] \<and> (\<forall>p. isTemp p \<longrightarrow> fsys s p = fs0 p)) \<and>
         (\<exists>more s'. parallelDownload net zr (sched @ more) fs0 programs target workers = Some s' \<and>
            driver s' = Finished \<and> (\<forall>p. isTemp p \<longrightarrow> fsys s' p = fs0 p)) \<and>
         (\<forall>fs fs' path e. downloadZip net rnd fs pr = (fs', path, Some e) \<longrightarrow> fs' = fs) \<and>
         (\<forall>fs job. fst (unzipWorker zr fs job) (unzipJob.zipPath job) = None)"
proof (rule run_selected [OF assms])
  fix toDownload
  assume sel: "selectTargets programs target = Some toDownload"
  have drained: "inFlight t = [] \<and> (\<forall>p. isTemp p \<longrightarrow> fsys t p = fs0 p)"
    if run: "parallelDownload net zr sch fs0 programs target workers = Some t"
      and fin: "driver t = Finished" for sch t
  proof -
    from run_chanInv [OF sel run] fin
    have "buf (downloadResults t) = []" "buf (unzipJobs t) = []"
      by (simp_all add: chanInv_def)
    with fin have "inFlight t = []"
      by (simp add: inFlight_def okPaths_def)
    with run_tempInv [OF run] show ?thesis
      by (simp add: tempInv_def)
  qed
  from run_tempInv [OF assms]
  have frame: "\<forall>p. isTemp p \<and> p \<notin> set (inFlight s) \<longrightarrow> fsys s p = fs0 p"
    by (simp add: tempInv_def)
  from drained [OF assms]
  have fin: "driver s = Finished \<longrightarrow> inFlight s = [] \<and> (\<forall>p. isTemp p \<longrightarrow> fsys s p = fs0 p)"
    by blast
  from parallelDownload_finishes(2) [OF sel assms] obtain more s'
    where "parallelDownload net zr (sched @ more) fs0 programs target workers = Some s'"
      and "driver s' = Finished"
    by blast
  with drained [of "sched @ more" s']
  have reach: "\<exists>more s'. parallelDownload net zr (sched @ more) fs0 programs target workers = Some s' \<and>
      driver s' = Finished \<and> (\<forall>p. isTemp p \<longrightarrow> fsys s' p = fs0 p)"
    by blast
  have dl: "\<forall>fs fs' path e. downloadZip net rnd fs pr = (fs', path, Some e) \<longrightarrow> fs' = fs"
    by (auto dest: downloadZip_failed)
  have uz: "\<forall>fs job. fst (unzipWorker zr fs job) (unzipJob.zipPath job) = None"
    by (simp add: unzipWorker_removes)
  from frame fin reach dl uz show ?thesis
    by blast
qed

theorem no_temp_files_remain_witness:
  "parallelDownload exNet exZip exSchedule Map.empty exPrograms ''all'' 1 = Some exFinal \<and>
   driver exFinal = Finished \<and>
   inFlight exFinal = [] \<and>
   isTemp (tmpName ''1'') \<and> fsys exFinal (tmpName ''1'') = Map.empty (tmpName ''1'') \<and>
   isTemp (tmpName ''2'') \<and> fsys exFinal (tmpName ''2'') = Map.empty (tmpName ''2'') \<and>
   isTemp (tmpName ''3'') \<and> fsys exFinal (tmpName ''3'') = Map.empty (tmpName ''3'') \<and>
   downloadZip exNet ''2'' Map.empty cutP = (Map.empty, [], Some ErrUnexpectedEOF) \<and>
   fst (unzipWorker exZip (staleFs ''<html>'') \<lparr>program = acme, zipPath = tmpName ''7''\<rparr>)
     (tmpName ''7'') = None \<and>
   fsys exFinal acmeOut = Some (File acmeText) \<and>
   parallelDownload exNet exZip burstSchedule Map.empty [acme, acme, acme] ''all'' 1 =
     Some burstFinal \<and>
   inFlight burstFinal = [tmpName ''1'', tmpName ''2'', tmpName ''3''] \<and>
   isTemp (tmpName ''4'') \<and> fsys burstFinal (tmpName ''4'') = Map.empty (tmpName ''4'') \<and>
   (\<exists>more s'. parallelDownload exNet exZip (burstSchedule @ more) Map.empty [acme, acme, acme]
        ''all'' 1 = Some s' \<and>
      driver s' = Finished \<and> (\<forall>p. isTemp p \<longrightarrow> fsys s' p = Map.empty p))"
proof -
  note run = exFinal_run
  note fin = exFinal_driver
  note inst = no_temp_files_remain [OF run, of "''2''" cutP]
  note drained = inst [THEN conjunct2, THEN conjunct1, THEN mp, OF fin]
  note none = drained [THEN conjunct1]
  note temps = isTemp_tmpName [of "''1''"] isTemp_tmpName [of "''2''"] isTemp_tmpName [of "''3''"]
    isTemp_tmpName [of "''4''"]
  from drained temps have same:
    "fsys exFinal (tmpName ''1'') = Map.empty (tmpName ''1'')"
    "fsys exFinal (tmpName ''2'') = Map.empty (tmpName ''2'')"
    "fsys exFinal (tmpName ''3'') = Map.empty (tmpName ''3'')"
    by blast+
  have cut: "downloadZip exNet ''2'' Map.empty cutP = (Map.empty, [], Some ErrUnexpectedEOF)"
    by (simp add: downloadZip_def exNet_def cutP_def CreateTemp_def Remove_def)
  from inst have removed:
    "fst (unzipWorker exZip (staleFs ''<html>'') \<lparr>program = acme, zipPath = tmpName ''7''\<rparr>)
       (tmpName ''7'') = None"
    by (metis unzipJob.select_convs(2))
  note out = exFinal_out
  note burst = burstFinal_run
  note inst2 = no_temp_files_remain [OF burst, of "''2''" cutP]
  have flying: "inFlight burstFinal = [tmpName ''1'', tmpName ''2'', tmpName ''3'']"
    by (simp add: burstFinal_def inFlight_def okPaths_def run_defs)
  have "tmpName ''4'' \<notin> set (inFlight burstFinal)"
    by (simp add: flying tmpName_def)
  with inst2 [THEN conjunct1] temps(4)
  have other: "fsys burstFinal (tmpName ''4'') = Map.empty (tmpName ''4'')"
    by blast
  note finish = inst2 [THEN conjunct2, THEN conjunct2, THEN conjunct1]
  show ?thesis
    by (intro conjI; fact)
qed




section \<open>A second download over an earlier one\<close>

text \<open>
  Claim C8 as it is stated fails when the archive of the second run cannot be opened:
  \<^verbatim>\<open>unzip\<close> returns at \<^verbatim>\<open>zip.OpenReader\<close>, before \<^verbatim>\<open>os.Create\<close>, and the consolidated
  file keeps the content of the first run. So it is in a whole run of the pipeline for a
  program whose URL now serves a page that is no archive: the download counts as a
  success, and the consolidated file is that of the earlier run.
\<close>

theorem unzip_overwrites_counterexample:
  "staleFs ''<html>'' acmeOut = Some (File ''old.acme.com'') \<and>
   snd (unzip exZip (staleFs ''<html>'') (tmpName ''7'') ''chaos/acme'') = Some ErrFormat \<and>
   fst (unzip exZip (staleFs ''<html>'') (tmpName ''7'') ''chaos/acme'') acmeOut =
     Some (File ''old.acme.com'') \<and>
   rerunFs ''chaos/html/subdomains.txt'' = Some (File ''old.html.com'') \<and>
   selectTargets exPrograms ''Html'' = Some [htmlP] \<and>
   parallelDownload exNet exZip rerunSchedule rerunFs exPrograms ''Html'' 1 = Some rerunFinal \<and>
   driver rerunFinal = Finished \<and> successCount rerunFinal = 1 \<and>
   fsys rerunFinal ''chaos/html/subdomains.txt'' = Some (File ''old.html.com'')"
proof -
  have bad: "OpenReader exZip (staleFs ''<html>'') (tmpName ''7'') = Inl ErrFormat"
    by (simp add: OpenReader_stale exZip_def)
  have old: "staleFs ''<html>'' acmeOut = Some (File ''old.acme.com'')"
    by (simp add: staleFs_def acmeOut_def tmpName_def)
  from unzip_not_opened [OF bad, of "''chaos/acme''"] old
  have kept: "snd (unzip exZip (staleFs ''<html>'') (tmpName ''7'') ''chaos/acme'') = Some ErrFormat"
    "fst (unzip exZip (staleFs ''<html>'') (tmpName ''7'') ''chaos/acme'') acmeOut =
       Some (File ''old.acme.com'')"
    by simp_all
  have before: "rerunFs ''chaos/html/subdomains.txt'' = Some (File ''old.html.com'')"
    by (simp add: rerunFs_def)
  note sel = select_html
  note run = rerunFinal_run
  note after = rerunFinal_facts(1,2,4)
  show ?thesis
    by (intro conjI; fact)
qed

end
